theory Spec2Isabelle
  imports Complex_Main "HOL-Library.Multiset"
begin

section \<open>Errors raised by the search core\<close>

text \<open>
  Every \<^verbatim>\<open>throw std::runtime_error(...)\<close> of the modelled sources is one constructor,
  named after the message it carries.
\<close>

datatype error =
    CellOrderMismatch       \<comment> \<open>"Cell order and matrix order must match"\<close>
  | IndicesNotValid         \<comment> \<open>"Indices are not valid"\<close>
  | AttributeTypeMismatch   \<comment> \<open>"Attribute type mismatch: ..."\<close>
  | InvalidPartitioning     \<comment> \<open>"Invalid partitioning"\<close>
  | ColumnCountMismatch     \<comment> \<open>"Column count mismatch"\<close>
  | QueryNotComplete        \<comment> \<open>"Query status is not complete -- fix me"\<close>

section \<open>The partitioned streamer (tdb_partitioned_matrix.h)\<close>

text \<open>
  The persistent arrays are outside the repository. The database array is a list of columns
  (\<open>array_m\<close>, one entry of type \<open>'v\<close> per column), the ids array a list of ids
  (\<open>ids_array_m\<close>); a read of a set of inclusive column ranges returns the cells of the ranges
  in the order the ranges were added. Three flags stand for what the schema and the storage
  answer: \<open>order_ok\<close> (cell order agrees with the matrix order), \<open>attr_type_ok\<close>
  (the attribute type is \<open>T\<close>) and \<open>status_complete\<close> (a submitted query completes).

  A member \<^verbatim>\<open>x_\<close> of the class is the field \<open>x_m\<close> of the record.

  Unsigned integers are modelled as \<open>nat\<close>. The theorems below assume a monotone indices
  vector whose entries are in range for every partition number used, so that no subtraction
  of the source wraps and no read is out of range (both are undefined or wrapping behaviour
  in the source, and not described by these definitions).
\<close>

record 'v tdbPartitionedMatrix =
  array_m :: "'v list"
  ids_array_m :: "nat list"
  order_ok :: bool
  attr_type_ok :: bool
  status_complete :: bool
  num_array_cols_m :: nat
  total_num_parts_m :: nat
  indices_m :: "nat list"
  parts_m :: "nat list"
  ids_m :: "nat list"
  data_m :: "'v option list"
  col_view_m :: "nat \<times> nat"
  col_part_view_m :: "nat \<times> nat"
  col_offset_m :: nat
  col_part_offset_m :: nat
  max_cols_m :: nat
  num_cols_m :: nat
  num_col_parts_m :: nat

text \<open>
  Lines 231-239 of \<^verbatim>\<open>advance\<close>: the loop that fits partitions into \<open>max_cols_m\<close>.
  \<open>c0\<close> is \<open>get<0>(col_view_m)\<close>; the pair carried along is
  \<open>(get<1>(col_view_m), get<1>(col_part_view_m))\<close>; \<open>i\<close> is the loop counter.
\<close>

function fit_partitions ::
  "nat list \<Rightarrow> nat list \<Rightarrow> nat \<Rightarrow> nat \<Rightarrow> nat \<Rightarrow> nat \<times> nat \<Rightarrow> nat \<Rightarrow> nat \<times> nat" where
  "fit_partitions ind ps npart maxc c0 (c1, p1) i =
     (if i < npart then
        (let next_part_size = ind ! (ps ! i + 1) - ind ! (ps ! i) in
         if c1 + next_part_size > c0 + maxc then (c1, p1)
         else fit_partitions ind ps npart maxc c0 (c1 + next_part_size, i + 1) (i + 1))
      else (c1, p1))"
  by pat_completeness auto
termination
  by (relation "measure (\<lambda>(ind, ps, npart, maxc, c0, cp, i). npart - i)") auto

declare fit_partitions.simps [simp del]

text \<open>
  Lines 266-278 and 313-325: the loop that adds one inclusive column range per non-empty
  partition of the window and counts the columns. The result is \<open>(col_count, ranges)\<close>.
\<close>

fun add_ranges :: "nat list \<Rightarrow> nat list \<Rightarrow> nat list \<Rightarrow> nat \<times> (nat \<times> nat) list" where
  "add_ranges ind ps [] = (0, [])"
| "add_ranges ind ps (j # js) =
     (let start = ind ! (ps ! j); stop = ind ! (ps ! j + 1); len = stop - start;
          (col_count, ranges) = add_ranges ind ps js
      in if len = 0 then (col_count, ranges)
         else (len + col_count, (start, stop - 1) # ranges))"

text \<open>The cells a query over the inclusive ranges returns: the columns of each range, in order.\<close>

definition range_columns :: "(nat \<times> nat) list \<Rightarrow> nat list" where
  "range_columns ranges = concat (map (\<lambda>(start, stop). [start ..< stop + 1]) ranges)"

text \<open>A query writes the cells it read at the front of the buffer and leaves the rest.\<close>

definition fill_buffer :: "'a list \<Rightarrow> 'a list \<Rightarrow> 'a list" where
  "fill_buffer cells buf = cells @ drop (length cells) buf"

definition advance :: "'v tdbPartitionedMatrix \<Rightarrow> error + (bool \<times> 'v tdbPartitionedMatrix)" where
  "advance m =
     (if \<not> attr_type_ok m then Inl AttributeTypeMismatch
      else
       let c0 = snd (col_view_m m);
           p0 = snd (col_part_view_m m);
           (c1, p1) = fit_partitions (indices_m m) (parts_m m) (total_num_parts_m m) (max_cols_m m)
                        c0 (c0, p0) p0;
           m1 = m\<lparr>col_view_m := (c0, c1), col_part_view_m := (p0, p1),
                   num_cols_m := c1 - c0, col_offset_m := c0,
                   num_col_parts_m := p1 - p0, col_part_offset_m := p0\<rparr>
       in if (num_cols_m m1 = 0 \<and> num_col_parts_m m1 \<noteq> 0) \<or>
             (num_cols_m m1 \<noteq> 0 \<and> num_col_parts_m m1 = 0)
          then Inl InvalidPartitioning
          else if num_cols_m m1 = 0 then Inr (False, m1)
          else
           let (col_count, ranges) = add_ranges (indices_m m1) (parts_m m1) [p0 ..< p1] in
           if col_count \<noteq> c1 - c0 then Inl ColumnCountMismatch
           else if \<not> status_complete m1 then Inl QueryNotComplete
           else
            let m2 = m1\<lparr>data_m := fill_buffer (map (\<lambda>c. Some (array_m m1 ! c)) (range_columns ranges))
                                    (data_m m1)\<rparr>;
                (ids_col_count, ids_ranges) = add_ranges (indices_m m2) (parts_m m2) [p0 ..< p1]
            in if ids_col_count \<noteq> c1 - c0 then Inl ColumnCountMismatch
               else if \<not> status_complete m2 then Inl QueryNotComplete
               else Inr (True, m2\<lparr>ids_m := fill_buffer (map (\<lambda>c. ids_array_m m2 ! c)
                                                        (range_columns ids_ranges)) (ids_m m2)\<rparr>))"

text \<open>The accessors of lines 346-360.\<close>

definition num_col_parts :: "'v tdbPartitionedMatrix \<Rightarrow> nat" where
  "num_col_parts m = snd (col_part_view_m m) - fst (col_part_view_m m)"

definition col_part_offset :: "'v tdbPartitionedMatrix \<Rightarrow> nat" where
  "col_part_offset m = col_part_offset_m m"

definition col_offset :: "'v tdbPartitionedMatrix \<Rightarrow> nat" where
  "col_offset m = col_offset_m m"

text \<open>
  Two conversions of the language, written out. \<open>to_int32\<close> is the conversion of an integer
  value to \<^verbatim>\<open>int\<close> (32 bits, two's complement: the value modulo \<open>2\<^sup>3\<^sup>2\<close> in the range from
  \<open>-2\<^sup>3\<^sup>1\<close>); \<open>to_size_t\<close> the conversion of an \<^verbatim>\<open>int\<close> to \<^verbatim>\<open>size_t\<close> (64 bits: the value
  modulo \<open>2\<^sup>6\<^sup>4\<close>).
\<close>

definition to_int32 :: "int \<Rightarrow> int" where
  "to_int32 x = (x + 2147483648) mod 4294967296 - 2147483648"

definition to_size_t :: "int \<Rightarrow> nat" where
  "to_size_t x = nat (x mod 18446744073709551616)"

text \<open>
  Lines 174-177: \<open>total_max_cols\<close>, the sum of the sizes of the active partitions. The
  accumulator is declared \<^verbatim>\<open>auto total_max_cols = 0\<close>, an \<^verbatim>\<open>int\<close>: each addition is made
  on \<^verbatim>\<open>size_t\<close> and converted back to \<^verbatim>\<open>int\<close>.
\<close>

definition total_max_cols :: "nat list \<Rightarrow> nat list \<Rightarrow> int" where
  "total_max_cols ind ps =
     foldl (\<lambda>tot p. to_int32 ((int (to_size_t tot) + int (ind ! (p + 1) - ind ! p))
                                 mod 18446744073709551616))
       0 ps"

text \<open>
  The constructor (lines 121-200), in two parts. \<open>arr\<close> and \<open>ids_arr\<close> are the arrays
  behind the two uris, \<open>ncols\<close> the size of the column domain of the database array.
  \<open>tdbPartitionedMatrix_alloc\<close> is the body up to line 196: it repairs a last index equal to
  its predecessor, computes \<open>max_cols_m\<close> (lines 179-183, where the \<^verbatim>\<open>int\<close> is compared with
  and assigned to a \<^verbatim>\<open>size_t\<close>) and allocates the two buffers.
  \<open>tdbPartitionedMatrix_init\<close> is the whole constructor: it ends with the call of
  \<open>advance\<close> of line 199, whose exceptions pass through and whose result is dropped.
\<close>

definition tdbPartitionedMatrix_alloc ::
  "'v list \<Rightarrow> nat list \<Rightarrow> bool \<Rightarrow> bool \<Rightarrow> bool \<Rightarrow> nat \<Rightarrow> nat list \<Rightarrow> nat list \<Rightarrow> nat
     \<Rightarrow> error + 'v tdbPartitionedMatrix" where
  "tdbPartitionedMatrix_alloc arr ids_arr ord attr stat ncols in_indices in_parts upper_bound =
     (if \<not> ord then Inl CellOrderMismatch
      else
       let n = length in_indices;
           repair = (in_indices ! (n - 1) = in_indices ! (n - 2))
       in if repair \<and> in_indices ! (n - 1) > ncols then Inl IndicesNotValid
          else
           let ind = (if repair then in_indices[n - 1 := ncols] else in_indices);
               tot = total_max_cols ind in_parts;
               maxc = (if upper_bound = 0 \<or> upper_bound > to_size_t tot then to_size_t tot
                       else upper_bound)
           in Inr \<lparr>array_m = arr, ids_array_m = ids_arr, order_ok = ord, attr_type_ok = attr,
                    status_complete = stat, num_array_cols_m = ncols,
                    total_num_parts_m = length in_parts, indices_m = ind, parts_m = in_parts,
                    ids_m = replicate maxc 0, data_m = replicate maxc None,
                    col_view_m = (0, 0), col_part_view_m = (0, 0), col_offset_m = 0,
                    col_part_offset_m = 0, max_cols_m = maxc, num_cols_m = 0,
                    num_col_parts_m = 0\<rparr>)"

definition tdbPartitionedMatrix_init ::
  "'v list \<Rightarrow> nat list \<Rightarrow> bool \<Rightarrow> bool \<Rightarrow> bool \<Rightarrow> nat \<Rightarrow> nat list \<Rightarrow> nat list \<Rightarrow> nat
     \<Rightarrow> error + 'v tdbPartitionedMatrix" where
  "tdbPartitionedMatrix_init arr ids_arr ord attr stat ncols in_indices in_parts upper_bound =
     (case tdbPartitionedMatrix_alloc arr ids_arr ord attr stat ncols in_indices in_parts
             upper_bound of
        Inl e \<Rightarrow> Inl e
      | Inr m \<Rightarrow> (case advance m of Inl e \<Rightarrow> Inl e | Inr (b, m') \<Rightarrow> Inr m'))"

text \<open>Sequencing of fallible steps: an exception ends the sequence.\<close>

definition bind_error :: "error + 'a \<Rightarrow> ('a \<Rightarrow> error + 'b) \<Rightarrow> error + 'b" where
  "bind_error x f = (case x of Inl e \<Rightarrow> Inl e | Inr a \<Rightarrow> f a)"

text \<open>The two components of what \<open>advance\<close> gives: the value it returns and the object after it.\<close>

definition advance_result :: "'v tdbPartitionedMatrix \<Rightarrow> error + bool" where
  "advance_result m = map_sum id fst (advance m)"

definition next_window :: "'v tdbPartitionedMatrix \<Rightarrow> error + 'v tdbPartitionedMatrix" where
  "next_window m = map_sum id snd (advance m)"

text \<open>The cursor fields of a streamer: both accessors and both views.\<close>

definition cursors :: "'v tdbPartitionedMatrix \<Rightarrow> nat \<times> nat \<times> (nat \<times> nat) \<times> (nat \<times> nat)" where
  "cursors m = (col_offset m, col_part_offset m, col_view_m m, col_part_view_m m)"

subsection \<open>Well-formed inputs of the streamer\<close>

text \<open>The number of columns of the \<open>i\<close>-th active partition.\<close>

definition part_size :: "nat list \<Rightarrow> nat list \<Rightarrow> nat \<Rightarrow> nat" where
  "part_size ind ps i = ind ! (ps ! i + 1) - ind ! (ps ! i)"

text \<open>
  A well-formed indices vector for \<open>N\<close> columns: monotone, starting at 0 and ending at \<open>N\<close>.
  A well-formed active list: strictly ascending (sorted, without duplicates) partition
  numbers, each with its end index inside the indices vector.
\<close>

definition wf_indices :: "nat list \<Rightarrow> nat \<Rightarrow> bool" where
  "wf_indices ind N = (sorted ind \<and> ind \<noteq> [] \<and> hd ind = 0 \<and> last ind = N)"

definition wf_active :: "nat list \<Rightarrow> nat list \<Rightarrow> bool" where
  "wf_active ind ps = (sorted_wrt (<) ps \<and> list_all (\<lambda>p. p + 1 < length ind) ps)"

text \<open>The columns of the shuffled database that belong to partition \<open>p\<close>.\<close>

definition part_columns :: "nat list \<Rightarrow> nat \<Rightarrow> nat list" where
  "part_columns ind p = [ind ! p ..< ind ! (p + 1)]"

subsection \<open>Concrete streamers\<close>

text \<open>The number of active partitions that no window has held yet.\<close>

definition unserved :: "'v tdbPartitionedMatrix \<Rightarrow> nat" where
  "unserved m = total_num_parts_m m - snd (col_part_view_m m)"

text \<open>
  The streamer of the scenario "Streamer correctness": ten columns, indices
  \<open>[0, 3, 3, 7, 10]\<close>, active partitions 0, 2 and 3 (of 3, 4 and 3 columns).
\<close>

definition ex_stream :: "nat \<Rightarrow> error + nat tdbPartitionedMatrix" where
  "ex_stream upper_bound =
     tdbPartitionedMatrix_init [0 ..< 10] (map (\<lambda>c. 100 + c) [0 ..< 10]) True True True 10
       [0, 3, 3, 7, 10] [0, 2, 3] upper_bound"

text \<open>Seven columns in two partitions of 2 and 5 columns, both active, at most 4 columns resident.\<close>

definition ex_big :: "error + nat tdbPartitionedMatrix" where
  "ex_big =
     tdbPartitionedMatrix_init [0 ..< 7] (map (\<lambda>c. 100 + c) [0 ..< 7]) True True True 7
       [0, 2, 7] [0, 1] 4"

text \<open>
  Five columns, indices \<open>[0, 0, 5]\<close>: partition 0 is empty. The only active partition is
  partition 0 and there is no bound. This is the object the constructor has built when it
  calls \<open>advance\<close>.
\<close>

definition ex_empty :: "nat tdbPartitionedMatrix" where
  "ex_empty =
     \<lparr>array_m = [0 ..< 5], ids_array_m = [100, 101, 102, 103, 104], order_ok = True,
      attr_type_ok = True, status_complete = True, num_array_cols_m = 5,
      total_num_parts_m = 1, indices_m = [0, 0, 5], parts_m = [0],
      ids_m = [], data_m = [],
      col_view_m = (0, 0), col_part_view_m = (0, 0), col_offset_m = 0,
      col_part_offset_m = 0, max_cols_m = 0, num_cols_m = 0, num_col_parts_m = 0\<rparr>"


section \<open>The bounded heap of pairs (utils/fixed_min_heap.h)\<close>

text \<open>
  Modelled from the spec: the header utils/fixed_min_heap.h, which defines the class
  \<^verbatim>\<open>fixed_min_pair_heap\<close>, is not among the sources (only its uses in qv.h and
  ivf_index.h and its unit test are). The spec says: capacity \<open>k\<close>, an optional score
  comparator (default: ascending); the size is at most \<open>k\<close> at all times; once the size
  is \<open>k\<close>, an insert with a score not below the current maximum in the heap is a no-op,
  otherwise the maximum is displaced; equal scores do not deduplicate; iteration is in
  container order and a terminal sort gives ascending scores, ties in unspecified order.

  The container is the list \<open>elems\<close>. With the comparator \<open>cmp\<close>, the entry at the top
  of the heap is one that no other entry follows in the order of \<open>cmp\<close> (for \<open>(<)\<close> an
  entry of maximal score, for \<open>(>)\<close> one of minimal score).
\<close>

record ('s, 'i) fixed_min_pair_heap =
  max_size :: nat
  elems :: "('s \<times> 'i) list"

definition new_heap :: "nat \<Rightarrow> ('s, 'i) fixed_min_pair_heap" where
  "new_heap k = \<lparr>max_size = k, elems = []\<rparr>"

definition heap_top :: "('s \<Rightarrow> 's \<Rightarrow> bool) \<Rightarrow> ('s \<times> 'i) list \<Rightarrow> 's \<times> 'i" where
  "heap_top cmp es = foldl (\<lambda>t e. if cmp (fst t) (fst e) then e else t) (hd es) (tl es)"

definition heap_insert ::
  "('s \<Rightarrow> 's \<Rightarrow> bool) \<Rightarrow> ('s, 'i) fixed_min_pair_heap \<Rightarrow> 's \<Rightarrow> 'i \<Rightarrow> ('s, 'i) fixed_min_pair_heap" where
  "heap_insert cmp h x y =
     (if length (elems h) < max_size h then h\<lparr>elems := elems h @ [(x, y)]\<rparr>
      else if elems h \<noteq> [] \<and> cmp x (fst (heap_top cmp (elems h)))
      then h\<lparr>elems := remove1 (heap_top cmp (elems h)) (elems h) @ [(x, y)]\<rparr>
      else h)"

text \<open>A sequence of calls of \<open>insert\<close>, in order.\<close>

definition heap_inserts ::
  "('s \<Rightarrow> 's \<Rightarrow> bool) \<Rightarrow> ('s, 'i) fixed_min_pair_heap \<Rightarrow> ('s \<times> 'i) list \<Rightarrow> ('s, 'i) fixed_min_pair_heap" where
  "heap_inserts cmp h xs = foldl (\<lambda>h (x, y). heap_insert cmp h x y) h xs"

text \<open>
  The terminal sort (\<^verbatim>\<open>std::sort_heap\<close> on the container) orders the entries by score:
  ascending with the default comparator, descending with \<^verbatim>\<open>std::greater\<close>. The order it
  leaves among entries of equal score depends on the layout of the heap (in the absent
  header) and on the standard library, and is unspecified. Code that sorts a heap is
  therefore modelled with the sort as a parameter, of which only this is assumed: the
  result is a rearrangement of the container, ordered by score.
\<close>

definition sorts_ascending :: "(('s::linorder \<times> 'i) list \<Rightarrow> ('s \<times> 'i) list) \<Rightarrow> bool" where
  "sorts_ascending srt = (\<forall>xs. mset (srt xs) = mset xs \<and> sorted (map fst (srt xs)))"

definition sorts_descending :: "(('s::linorder \<times> 'i) list \<Rightarrow> ('s \<times> 'i) list) \<Rightarrow> bool" where
  "sorts_descending srt = (\<forall>xs. mset (srt xs) = mset xs \<and> sorted (rev (map fst (srt xs))))"

text \<open>
  \<open>H\<close> is a \<open>k\<close>-smallest-by-score subset of the pairs \<open>S\<close>: a sub-multiset of \<open>S\<close> with
  \<open>min k |S|\<close> pairs, none of which has a larger score than a pair of \<open>S\<close> left out.
\<close>

definition k_smallest_subset ::
  "nat \<Rightarrow> ('s::linorder \<times> 'i) multiset \<Rightarrow> ('s \<times> 'i) multiset \<Rightarrow> bool" where
  "k_smallest_subset k H S =
     (H \<subseteq># S \<and> size H = min k (size S) \<and> (\<forall>a \<in># H. \<forall>b \<in># S - H. fst a \<le> fst b))"

text \<open>
  With the comparator \<^verbatim>\<open>std::greater\<close> the heap keeps the largest scores: \<open>H\<close> is a
  \<open>k\<close>-largest-by-score subset of the pairs \<open>S\<close>.
\<close>

definition k_largest_subset ::
  "nat \<Rightarrow> ('s::linorder \<times> 'i) multiset \<Rightarrow> ('s \<times> 'i) multiset \<Rightarrow> bool" where
  "k_largest_subset k H S =
     (H \<subseteq># S \<and> size H = min k (size S) \<and> (\<forall>a \<in># H. \<forall>b \<in># S - H. fst b \<le> fst a))"

section \<open>Random initialisation of the centroids (ivf_index.h, kmeans_random_init)\<close>









section \<open>k-means training (ivf_index.h, train_no_init)\<close>

text \<open>
  Feature values, scores and tolerances are floating-point numbers in the source. They are
  modelled by rational numbers with exact arithmetic: rounding, overflow and NaN are not
  described. A vector is the list of its components; a matrix the list of its columns.
\<close>

type_synonym vec = "rat list"

text \<open>
  Modelled from the spec: \<^verbatim>\<open>sum_of_squares\<close> is called by ivf_index.h and defined in a
  header that is not among the sources. The spec gives the squared distance
  \<open>L2(a, b) = \<Sum> (a\<^sub>i - b\<^sub>i)\<^sup>2\<close> over the dimension.
\<close>

definition sum_of_squares :: "vec \<Rightarrow> vec \<Rightarrow> rat" where
  "sum_of_squares a b = (\<Sum>(x, y) \<leftarrow> zip a b. (x - y) ^ 2)"

text \<open>
  Modelled from the spec: \<^verbatim>\<open>detail::flat::qv_partition_with_scores\<close> (detail/flat/qv.h) is
  not among the sources. The spec says: for each vector, the single nearest centroid's
  score and id. \<open>train_no_init\<close> below takes the function as a parameter; this definition
  (the first nearest centroid on ties) is used for concrete runs.
\<close>

definition nearest_centroid :: "vec list \<Rightarrow> vec \<Rightarrow> rat \<times> nat" where
  "nearest_centroid centroids v =
     foldl (\<lambda>(best, arg) j.
              let s = sum_of_squares v (centroids ! j) in if s < best then (s, j) else (best, arg))
           (sum_of_squares v (centroids ! 0), 0) [1 ..< length centroids]"

definition qv_partition_with_scores :: "vec list \<Rightarrow> vec list \<Rightarrow> rat list \<times> nat list" where
  "qv_partition_with_scores centroids vectors =
     (map (\<lambda>v. fst (nearest_centroid centroids v)) vectors,
      map (\<lambda>v. snd (nearest_centroid centroids v)) vectors)"

text \<open>The parameters of a \<^verbatim>\<open>kmeans_index\<close> that training reads.\<close>

record kmeans_params =
  dimension_m :: nat
  nlist_m :: nat
  max_iter_m :: nat
  tol_m :: rat
  reassign_ratio_m :: rat

text \<open>
  What training calls and the sources do not determine, as parameters:
  \<^item> \<open>partition_with_scores\<close> stands for \<^verbatim>\<open>detail::flat::qv_partition_with_scores\<close>;
  \<^item> \<open>sort_low_degrees\<close> stands for the call \<^verbatim>\<open>std::sort_heap\<close> of line 341 on the
    container of \<^verbatim>\<open>low_degrees\<close>;
  \<^item> \<open>sort_high_scores\<close> stands for the call of lines 342-345 on the container of
    \<^verbatim>\<open>high_scores\<close>, with the comparator "greater first component".
  The order the two sorts leave among entries of equal degree or equal score is
  unspecified.
\<close>

record kmeans_lib =
  partition_with_scores :: "vec list \<Rightarrow> vec list \<Rightarrow> rat list \<times> nat list"
  sort_low_degrees :: "(nat \<times> nat) list \<Rightarrow> (nat \<times> nat) list"
  sort_high_scores :: "(rat \<times> nat) list \<Rightarrow> (rat \<times> nat) list"

text \<open>
  Lines 301-311: the sums of the vectors of each partition, the degrees, and the heap of the
  highest scores (comparator \<^verbatim>\<open>std::greater\<close>).
\<close>

definition add_vector :: "nat \<Rightarrow> vec \<Rightarrow> vec \<Rightarrow> vec" where
  "add_vector d centroid v = map (\<lambda>j. centroid ! j + v ! j) [0 ..< d]"

definition sub_vector :: "nat \<Rightarrow> vec \<Rightarrow> vec \<Rightarrow> vec" where
  "sub_vector d centroid v = map (\<lambda>j. centroid ! j - v ! j) [0 ..< d]"

definition accumulate_step ::
  "nat \<Rightarrow> vec list \<Rightarrow> rat list \<Rightarrow> nat list
     \<Rightarrow> vec list \<times> nat list \<times> (rat, nat) fixed_min_pair_heap \<Rightarrow> nat
     \<Rightarrow> vec list \<times> nat list \<times> (rat, nat) fixed_min_pair_heap" where
  "accumulate_step d training_set scores parts st i =
     (case st of (new_centroids, degrees, high_scores) \<Rightarrow>
        let part = parts ! i in
        (new_centroids[part := add_vector d (new_centroids ! part) (training_set ! i)],
         degrees[part := degrees ! part + 1],
         heap_insert (>) high_scores (scores ! i) i))"

definition accumulate ::
  "nat \<Rightarrow> nat \<Rightarrow> nat \<Rightarrow> vec list \<Rightarrow> rat list \<Rightarrow> nat list
     \<Rightarrow> vec list \<times> nat list \<times> (rat, nat) fixed_min_pair_heap" where
  "accumulate d nlist heap_size training_set scores parts =
     foldl (accumulate_step d training_set scores parts)
       (replicate nlist (replicate d 0), replicate nlist 0, new_heap heap_size)
       [0 ..< length training_set]"

text \<open>Lines 313-318: the largest degree and the heap of the lowest degrees.\<close>

definition degree_scan ::
  "nat \<Rightarrow> nat \<Rightarrow> nat list \<Rightarrow> nat \<times> (nat, nat) fixed_min_pair_heap" where
  "degree_scan nlist heap_size degrees =
     foldl (\<lambda>(max_degree, low_degrees) i.
              (max max_degree (degrees ! i), heap_insert (<) low_degrees (degrees ! i) i))
       (0, new_heap heap_size) [0 ..< nlist]"

text \<open>
  Lines 346-365: the reassignment loop; \<open>i\<close> is the loop counter. The state is
  \<open>(new_centroids, degrees)\<close>; the third component lists the pairs
  \<open>(zero_part, high_vector_id)\<close> processed so far (the values the commented-out output of
  lines 349-354 would print), which the computation does not read.
\<close>

definition reassign_step ::
  "nat \<Rightarrow> vec list \<Rightarrow> nat list \<Rightarrow> nat \<Rightarrow> nat
     \<Rightarrow> vec list \<times> nat list \<times> (nat \<times> nat) list \<Rightarrow> vec list \<times> nat list \<times> (nat \<times> nat) list" where
  "reassign_step d training_set parts zero_part high_vector_id st =
     (case st of (new_centroids, degrees, moved) \<Rightarrow>
        let high_vector = training_set ! high_vector_id;
            nc1 = new_centroids[zero_part := high_vector];
            nc2 = nc1[parts ! high_vector_id :=
                        sub_vector d (nc1 ! (parts ! high_vector_id)) high_vector];
            dg1 = degrees[zero_part := degrees ! zero_part + 1];
            dg2 = dg1[parts ! high_vector_id := dg1 ! (parts ! high_vector_id) - 1]
        in (nc2, dg2, moved @ [(zero_part, high_vector_id)]))"

function reassign_loop ::
  "nat \<Rightarrow> vec list \<Rightarrow> nat list \<Rightarrow> (nat \<times> nat) list \<Rightarrow> (rat \<times> nat) list \<Rightarrow> nat \<Rightarrow> nat
     \<Rightarrow> vec list \<times> nat list \<times> (nat \<times> nat) list \<Rightarrow> vec list \<times> nat list \<times> (nat \<times> nat) list" where
  "reassign_loop d training_set parts low high lower_degree_bound i st =
     (if i < length low \<and> fst (low ! i) \<le> lower_degree_bound
      then reassign_loop d training_set parts low high lower_degree_bound (i + 1)
             (reassign_step d training_set parts (snd (low ! i)) (snd (high ! i)) st)
      else st)"
  by pat_completeness auto
termination
  by (relation "measure (\<lambda>(d, ts, ps, low, high, b, i, st). length low - i)") auto

declare reassign_loop.simps [simp del]

text \<open>
  Lines 371-383: the new centroids are divided by their degrees, and \<open>max_diff\<close> and
  \<open>total_weight\<close> are computed. The state is \<open>(new_centroids, max_diff, total_weight)\<close>.
\<close>

definition converge_step ::
  "vec list \<Rightarrow> nat list \<Rightarrow> vec list \<times> rat \<times> rat \<Rightarrow> nat \<Rightarrow> vec list \<times> rat \<times> rat" where
  "converge_step centroids degrees st j =
     (case st of (new_centroids, max_diff, total_weight) \<Rightarrow>
        let (nc, tw) =
              (if degrees ! j \<noteq> 0
               then let centroid = map (\<lambda>x. x / of_nat (degrees ! j)) (new_centroids ! j)
                    in (new_centroids[j := centroid],
                        total_weight + (\<Sum>x \<leftarrow> centroid. x * x))
               else (new_centroids, total_weight));
            diff = sum_of_squares (centroids ! j) (nc ! j)
        in (nc, max max_diff diff, tw))"

definition check_convergence ::
  "nat \<Rightarrow> vec list \<Rightarrow> vec list \<Rightarrow> nat list \<Rightarrow> vec list \<times> rat \<times> rat" where
  "check_convergence nlist centroids new_centroids degrees =
     foldl (converge_step centroids degrees) (new_centroids, 0, 0) [0 ..< nlist]"

text \<open>
  Lines 281-366 of one iteration of the loop of line 280, up to the end of the
  reassignment: the sums \<open>new_centroids\<close>, the degrees, and the pairs the reassignment
  moved. As in the source, \<open>max_iter_m p - 1\<close> is computed on unsigned numbers: for
  \<open>max_iter_m p = 0\<close> the loop body is never run.
\<close>

definition accumulate_and_reassign ::
  "kmeans_params \<Rightarrow> kmeans_lib \<Rightarrow> vec list \<Rightarrow> nat \<Rightarrow> vec list
     \<Rightarrow> vec list \<times> nat list \<times> (nat \<times> nat) list" where
  "accumulate_and_reassign p lib training_set iter centroids =
     (let (scores, parts) = partition_with_scores lib centroids training_set;
          heap_size = nat \<lceil>reassign_ratio_m p * of_nat (nlist_m p)\<rceil> + 5;
          (new_centroids, degrees, high_scores) =
             accumulate (dimension_m p) (nlist_m p) heap_size training_set scores parts;
          (max_degree, low_degrees) = degree_scan (nlist_m p) heap_size degrees;
          lower_degree_bound = nat \<lceil>of_nat max_degree * reassign_ratio_m p\<rceil>
      in if iter \<noteq> max_iter_m p - 1
         then reassign_loop (dimension_m p) training_set parts
                (sort_low_degrees lib (elems low_degrees))
                (sort_high_scores lib (elems high_scores)) lower_degree_bound 0
                (new_centroids, degrees, [])
         else (new_centroids, degrees, []))"

text \<open>
  One iteration, up to the swap of line 384: the new centroids, \<open>max_diff\<close>,
  \<open>total_weight\<close> and the pairs the reassignment moved.
\<close>

definition lloyd_iteration ::
  "kmeans_params \<Rightarrow> kmeans_lib \<Rightarrow> vec list \<Rightarrow> nat \<Rightarrow> vec list
     \<Rightarrow> vec list \<times> rat \<times> rat \<times> (nat \<times> nat) list" where
  "lloyd_iteration p lib training_set iter centroids =
     (let (nc, dg, moved) = accumulate_and_reassign p lib training_set iter centroids;
          (nc', max_diff, total_weight) = check_convergence (nlist_m p) centroids nc dg
      in (nc', max_diff, total_weight, moved))"

text \<open>
  The loop of lines 280-406 from iteration \<open>iter\<close> on: the centroids at the end, the number
  of iterations that were run, and for each of them the pairs its reassignment moved.
\<close>

function train_loop ::
  "kmeans_params \<Rightarrow> kmeans_lib \<Rightarrow> vec list \<Rightarrow> nat \<Rightarrow> vec list
     \<Rightarrow> (nat \<times> nat) list list \<Rightarrow> vec list \<times> nat \<times> (nat \<times> nat) list list" where
  "train_loop p lib training_set iter centroids trace =
     (if iter < max_iter_m p then
        (case lloyd_iteration p lib training_set iter centroids of
           (new_centroids, max_diff, total_weight, moved) \<Rightarrow>
             if max_diff < tol_m p * total_weight
             then (new_centroids, iter + 1, trace @ [moved])
             else train_loop p lib training_set (iter + 1) new_centroids (trace @ [moved]))
      else (centroids, iter, trace))"
  by pat_completeness auto
termination
  by (relation "measure (\<lambda>(p, lib, ts, iter, c, tr). max_iter_m p - iter)") auto

declare train_loop.simps [simp del]

definition train_no_init ::
  "kmeans_params \<Rightarrow> kmeans_lib \<Rightarrow> vec list \<Rightarrow> vec list
     \<Rightarrow> vec list \<times> nat \<times> (nat \<times> nat) list list" where
  "train_no_init p lib training_set centroids =
     train_loop p lib training_set 0 centroids []"

subsection \<open>The reassignment in the words of the spec\<close>

text \<open>
  The spec: accumulate per-centroid vector sums and per-centroid membership counts
  (degrees). Of the partition numbers \<open>parts\<close> of the training vectors, the members of
  centroid \<open>j\<close>, their number and their sum:
\<close>

definition partition_members :: "vec list \<Rightarrow> nat list \<Rightarrow> nat \<Rightarrow> nat list" where
  "partition_members training_set parts j =
     filter (\<lambda>i. parts ! i = j) [0 ..< length training_set]"

definition partition_degree :: "vec list \<Rightarrow> nat list \<Rightarrow> nat \<Rightarrow> nat" where
  "partition_degree training_set parts j = length (partition_members training_set parts j)"

definition partition_sum :: "nat \<Rightarrow> vec list \<Rightarrow> nat list \<Rightarrow> nat \<Rightarrow> vec" where
  "partition_sum d training_set parts j =
     map (\<lambda>k. \<Sum>i \<leftarrow> partition_members training_set parts j. training_set ! i ! k) [0 ..< d]"

text \<open>
  The spec: each training vector's \<open>(score, id)\<close> goes into a max-heap of capacity
  \<open>k = \<lceil>reassign_ratio * nlist\<rceil> + 5\<close> (the highest-scoring outliers), each
  \<open>(degree, centroid_id)\<close> into a min-heap of equal capacity (the lowest-degree centroids),
  and the two heaps are sorted. So: \<open>high\<close> lists \<open>k\<close> pairs of highest score, the
  highest first, and \<open>low\<close> lists \<open>k\<close> pairs of lowest degree, the lowest first.
\<close>

definition highest_scores :: "nat \<Rightarrow> (rat \<times> nat) list \<Rightarrow> (rat \<times> nat) list \<Rightarrow> bool" where
  "highest_scores k high pairs =
     (k_largest_subset k (mset high) (mset pairs) \<and> sorted (rev (map fst high)))"

definition lowest_degrees :: "nat \<Rightarrow> (nat \<times> nat) list \<Rightarrow> (nat \<times> nat) list \<Rightarrow> bool" where
  "lowest_degrees k low pairs =
     (k_smallest_subset k (mset low) (mset pairs) \<and> sorted (map fst low))"

text \<open>
  The spec: for the first pairs of the sorted low-degree list whose degree is at most
  \<open>lower_degree_bound\<close>, overwrite that centroid with the i-th highest-scoring outlier
  vector; decrement the sum and the degree of the outlier's current centroid by that
  vector, and increment the low-degree centroid's degree.
\<close>

definition move_outlier ::
  "nat \<Rightarrow> vec list \<Rightarrow> nat list \<Rightarrow> vec list \<times> nat list \<Rightarrow> (nat \<times> nat) \<times> (rat \<times> nat)
     \<Rightarrow> vec list \<times> nat list" where
  "move_outlier d training_set parts st pair =
     (case (st, pair) of ((new_centroids, degrees), ((degree, low_centroid), (score, outlier))) \<Rightarrow>
        let current = parts ! outlier;
            overwritten = new_centroids[low_centroid := training_set ! outlier];
            incremented = degrees[low_centroid := degrees ! low_centroid + 1]
        in (overwritten[current := sub_vector d (overwritten ! current) (training_set ! outlier)],
            incremented[current := incremented ! current - 1]))"

text \<open>
  The sums, the degrees and the moved pairs \<open>(centroid, vector)\<close> after the reassignment
  of the spec, performed or skipped as \<open>reassign\<close> says, with
  \<open>lower_degree_bound = \<lceil>max_degree * reassign_ratio\<rceil>\<close> and \<open>max_degree\<close> the largest
  degree.
\<close>

definition reassignment_spec ::
  "kmeans_params \<Rightarrow> vec list \<Rightarrow> nat list \<Rightarrow> bool \<Rightarrow> (nat \<times> nat) list \<Rightarrow> (rat \<times> nat) list
     \<Rightarrow> vec list \<times> nat list \<times> (nat \<times> nat) list" where
  "reassignment_spec p training_set parts reassign low high =
     (let vector_sums = map (partition_sum (dimension_m p) training_set parts) [0 ..< nlist_m p];
          degrees = map (partition_degree training_set parts) [0 ..< nlist_m p];
          max_degree = foldr max degrees 0;
          lower_degree_bound = nat \<lceil>of_nat max_degree * reassign_ratio_m p\<rceil>;
          pairs = zip (takeWhile (\<lambda>e. fst e \<le> lower_degree_bound) low) high;
          (new_centroids, new_degrees) =
             foldl (move_outlier (dimension_m p) training_set parts) (vector_sums, degrees) pairs
      in if reassign
         then (new_centroids, new_degrees, map (\<lambda>(l, h). (snd l, snd h)) pairs)
         else (vector_sums, degrees, []))"



text \<open>
  Well-formed inputs of training: every training vector has \<open>dimension\<close> components, there
  are at least \<open>nlist\<close> of them, for every matrix of \<open>nlist\<close> centroids the partition
  function returns one score and one partition number below \<open>nlist\<close> for each vector, and
  the two sorts rearrange their argument into ascending order of degree and descending
  order of score.
\<close>

definition wf_training :: "kmeans_params \<Rightarrow> kmeans_lib \<Rightarrow> vec list \<Rightarrow> bool" where
  "wf_training p lib training_set =
     (nlist_m p \<le> length training_set \<and>
      list_all (\<lambda>v. length v = dimension_m p) training_set \<and>
      (\<forall>centroids. length centroids = nlist_m p \<longrightarrow>
         length (fst (partition_with_scores lib centroids training_set)) = length training_set \<and>
         length (snd (partition_with_scores lib centroids training_set)) = length training_set \<and>
         list_all (\<lambda>c. c < nlist_m p) (snd (partition_with_scores lib centroids training_set))) \<and>
      sorts_ascending (sort_low_degrees lib) \<and> sorts_descending (sort_high_scores lib))"

text \<open>
  Concrete runs: the default tolerance and reassignment ratio, two centroids of dimension
  1, at most 5 iterations; the nearest-centroid partition function, and stable sorts by
  degree and by negated score (used on inputs without equal degrees or scores).
\<close>

definition ex_params :: kmeans_params where
  "ex_params = \<lparr>dimension_m = 1, nlist_m = 2, max_iter_m = 5, tol_m = 25 / 1000000,
                reassign_ratio_m = 75 / 1000\<rparr>"

definition ex_lib :: kmeans_lib where
  "ex_lib = \<lparr>partition_with_scores = qv_partition_with_scores,
             sort_low_degrees = sort_key fst,
             sort_high_scores = sort_key (\<lambda>e. - fst e)\<rparr>"

text \<open>
  Five training vectors 22, 23, 27, 36, 18 and the centroids 24 and 18: the first four
  vectors are nearest to centroid 0 (scores 4, 1, 9, 144), the last is centroid 1 itself
  (score 0); the degrees are 4 and 1.
\<close>

definition ex_outlier_set :: "vec list" where
  "ex_outlier_set = [[22], [23], [27], [36], [18]]"


subsection \<open>Invariants of one iteration\<close>

text \<open>
  After the first \<open>n\<close> training vectors have been accumulated, the sum and the degree of
  partition \<open>j\<close> are those of its members among them.
\<close>

definition accumulated ::
  "nat \<Rightarrow> nat \<Rightarrow> vec list \<Rightarrow> nat list \<Rightarrow> nat \<Rightarrow> vec list \<Rightarrow> nat list \<Rightarrow> bool" where
  "accumulated d nlist training_set parts n new_centroids degrees =
     (length new_centroids = nlist \<and> length degrees = nlist \<and>
      (\<forall>j < nlist. length (new_centroids ! j) = d \<and>
         degrees ! j = card {i. i < n \<and> parts ! i = j} \<and>
         (\<forall>k < d. new_centroids ! j ! k = (\<Sum>i \<in> {i. i < n \<and> parts ! i = j}. training_set ! i ! k))))"



section \<open>Properties of the partitioned streamer\<close>

lemma fit_partitions_spec:
  "fit_partitions ind ps npart maxc c0 (c1, i) i = (c1', p1') \<Longrightarrow>
     i \<le> p1' \<and> (i \<le> npart \<longrightarrow> p1' \<le> npart) \<and>
     c1' = c1 + sum_list (map (part_size ind ps) [i ..< p1']) \<and>
     (p1' < npart \<longrightarrow> c0 + maxc < c1' + part_size ind ps p1') \<and>
     (c1 \<le> c0 + maxc \<longrightarrow> c1' \<le> c0 + maxc)"
proof (induction "npart - i" arbitrary: i c1)
  case 0
  then show ?case by (simp add: fit_partitions.simps)
next
  case (Suc d)
  then have lt: "i < npart" by simp
  show ?case
  proof (cases "c0 + maxc < c1 + part_size ind ps i")
    case True
    with lt Suc.prems show ?thesis
      by (simp add: fit_partitions.simps part_size_def Let_def)
  next
    case False
    with lt Suc.prems have rec:
      "fit_partitions ind ps npart maxc c0 (c1 + part_size ind ps i, Suc i) (Suc i) = (c1', p1')"
      by (simp add: fit_partitions.simps [of _ _ _ _ _ c1 i i] part_size_def Let_def)
    from Suc.hyps(2) have d: "d = npart - Suc i" by simp
    from Suc.hyps(1) [OF d rec] False lt show ?thesis
      by (auto simp: upt_conv_Cons)
  qed
qed

lemma fit_partitions_skip:
  "c1 + part_size ind ps i \<le> c0 + maxc \<Longrightarrow> i < npart \<Longrightarrow>
   fit_partitions ind ps npart maxc c0 (c1, i) i =
   fit_partitions ind ps npart maxc c0 (c1 + part_size ind ps i, Suc i) (Suc i)"
  by (simp add: fit_partitions.simps [of _ _ _ _ _ c1 i i] part_size_def Let_def)

lemma fit_partitions_stop:
  "i \<ge> npart \<or> c0 + maxc < c1 + part_size ind ps i \<Longrightarrow>
   fit_partitions ind ps npart maxc c0 (c1, i) i = (c1, i)"
  by (auto simp add: fit_partitions.simps [of _ _ _ _ _ c1 i i] part_size_def Let_def)

lemma fit_partitions_empties:
  "\<forall>j\<in>{i ..< p1}. part_size ind ps j = 0 \<Longrightarrow> i \<le> p1 \<Longrightarrow> p1 \<le> npart \<Longrightarrow> c1 \<le> c0 + maxc \<Longrightarrow>
   fit_partitions ind ps npart maxc c0 (c1, i) i = fit_partitions ind ps npart maxc c0 (c1, p1) p1"
proof (induction "p1 - i" arbitrary: i)
  case 0
  then show ?case by simp
next
  case (Suc d)
  then have "i < p1" by simp
  with Suc.prems have z: "part_size ind ps i = 0" and lt: "i < npart" by auto
  have "fit_partitions ind ps npart maxc c0 (c1, i) i =
        fit_partitions ind ps npart maxc c0 (c1, Suc i) (Suc i)"
    using fit_partitions_skip [of c1 ind ps i c0 maxc npart] z lt Suc.prems by simp
  also have "\<dots> = fit_partitions ind ps npart maxc c0 (c1, p1) p1"
    using Suc.hyps(1) [of "Suc i"] Suc.hyps(2) Suc.prems \<open>i < p1\<close> by auto
  finally show ?case .
qed

lemma add_ranges_eq:
  "add_ranges ind ps js =
     (sum_list (map (part_size ind ps) js),
      map (\<lambda>j. (ind ! (ps ! j), ind ! (ps ! j + 1) - 1))
          (filter (\<lambda>j. part_size ind ps j \<noteq> 0) js))"
  by (induction js) (auto simp: Let_def part_size_def)

lemma range_columns_step:
  "range_columns ((a, b) # rs) = [a ..< b + 1] @ range_columns rs"
  by (simp add: range_columns_def)

lemma range_columns_add_ranges:
  "range_columns (snd (add_ranges ind ps js)) = concat (map (\<lambda>j. part_columns ind (ps ! j)) js)"
proof (induction js)
  case Nil
  then show ?case by (simp add: range_columns_def)
next
  case (Cons j js)
  show ?case
  proof (cases "part_size ind ps j = 0")
    case True
    then have "part_columns ind (ps ! j) = []"
      by (simp add: part_columns_def part_size_def)
    with True Cons show ?thesis by (simp add: add_ranges_eq)
  next
    case False
    then have "ind ! (ps ! j + 1) - 1 + 1 = ind ! (ps ! j + 1)"
      by (simp add: part_size_def)
    then have "[ind ! (ps ! j) ..< ind ! (ps ! j + 1) - 1 + 1] = part_columns ind (ps ! j)"
      by (simp only: part_columns_def)
    with False Cons show ?thesis
      by (simp add: add_ranges_eq range_columns_step del: upt_Suc)
  qed
qed

text \<open>What one call of advance does, in terms of the window the fitting loop selects.\<close>

lemma advance_cases:
  assumes fit: "fit_partitions (indices_m m) (parts_m m) (total_num_parts_m m) (max_cols_m m)
                  (snd (col_view_m m)) (snd (col_view_m m), snd (col_part_view_m m))
                  (snd (col_part_view_m m)) = (c1, p1)"
    and attr: "attr_type_ok m"
    and c0: "c0 = snd (col_view_m m)" and p0: "p0 = snd (col_part_view_m m)"
    and m1: "m1 = m\<lparr>col_view_m := (c0, c1), col_part_view_m := (p0, p1),
                   num_cols_m := c1 - c0, col_offset_m := c0,
                   num_col_parts_m := p1 - p0, col_part_offset_m := p0\<rparr>"
    and cols: "cols = concat (map (\<lambda>j. part_columns (indices_m m) (parts_m m ! j)) [p0 ..< p1])"
  shows "advance m =
     (if c1 = c0 \<and> p0 < p1 then Inl InvalidPartitioning
      else if c1 = c0 then Inr (False, m1)
      else if \<not> status_complete m then Inl QueryNotComplete
      else Inr (True, m1\<lparr>data_m := fill_buffer (map (\<lambda>c. Some (array_m m ! c)) cols) (data_m m),
                          ids_m := fill_buffer (map (\<lambda>c. ids_array_m m ! c) cols) (ids_m m)\<rparr>))"
proof -
  from fit_partitions_spec [OF fit]
  have le: "p0 \<le> p1" and c1: "c1 = c0 + sum_list (map (part_size (indices_m m) (parts_m m)) [p0 ..< p1])"
    by (simp_all add: c0 p0)
  obtain ranges where ar: "add_ranges (indices_m m) (parts_m m) [p0 ..< p1] = (c1 - c0, ranges)"
    using c1 by (simp add: add_ranges_eq)
  have rc: "range_columns ranges = cols"
    using range_columns_add_ranges [of "indices_m m" "parts_m m" "[p0 ..< p1]"]
    by (simp add: ar cols)
  have eq0: "p1 = p0 \<Longrightarrow> c1 = c0" using c1 by simp
  have ge: "c0 \<le> c1" using c1 by simp
  have fit': "fit_partitions (indices_m m) (parts_m m) (total_num_parts_m m) (max_cols_m m) c0
                (c0, p0) p0 = (c1, p1)"
    using fit by (simp add: c0 p0)
  have adv: "advance m =
     (if (c1 - c0 = 0 \<and> p1 - p0 \<noteq> 0) \<or> (c1 - c0 \<noteq> 0 \<and> p1 - p0 = 0) then Inl InvalidPartitioning
      else if c1 - c0 = 0 then Inr (False, m1)
      else if \<not> status_complete m then Inl QueryNotComplete
      else Inr (True, m1\<lparr>data_m := fill_buffer (map (\<lambda>c. Some (array_m m ! c)) cols) (data_m m),
                          ids_m := fill_buffer (map (\<lambda>c. ids_array_m m ! c) cols) (ids_m m)\<rparr>))"
    unfolding advance_def m1 using attr
    by (simp add: Let_def c0 [symmetric] p0 [symmetric] fit' ar rc)
  show ?thesis
  proof (cases "c1 = c0")
    case True
    with le show ?thesis unfolding adv by auto
  next
    case False
    with ge eq0 le have "c1 - c0 \<noteq> 0" "p1 - p0 \<noteq> 0" by auto
    with False show ?thesis unfolding adv by simp
  qed
qed

lemma sum_list_part_size_0:
  "sum_list (map f js) = (0::nat) \<longleftrightarrow> (\<forall>j\<in>set js. f j = 0)"
  by (induction js) auto

section \<open>Claims about the partitioned streamer\<close>

text \<open>
  Claim C3. A streamer with an active partition larger than the window capacity should
  either admit that partition whole or raise an error, and never silently serve fewer
  than all active partitions. The code does neither: with at most 3 columns resident,
  the streamer of the scenario holds partition 0 after construction; the next call of
  \<open>advance\<close> meets partition 2 (4 columns), fits nothing, raises nothing and
  returns false, the value that tells the caller the stream has ended. Partitions 2 and 3
  are never served.
\<close>

theorem oversized_partition_ends_stream_silently:
  "wf_indices [0, 3, 3, 7, 10] 10 \<and> wf_active [0, 3, 3, 7, 10] [0, 2, 3] \<and>
   map_sum id cursors (ex_stream 3) = Inr (0, 0, (0, 3), (0, 1)) \<and>
   bind_error (ex_stream 3) advance_result = Inr False \<and>
   map_sum id cursors (bind_error (ex_stream 3) next_window) = Inr (3, 1, (3, 3), (1, 1)) \<and>
   map_sum id unserved (bind_error (ex_stream 3) next_window) = Inr 2"
  by code_simp

text \<open>
  Claim C4. \<open>advance\<close> should return false only when all active partitions have been
  served. With two active partitions of 2 and 5 columns and at most 4 columns resident,
  the call after the first window returns false while one active partition is unserved.
\<close>

theorem advance_false_with_partition_unserved:
  "wf_indices [0, 2, 7] 7 \<and> wf_active [0, 2, 7] [0, 1] \<and>
   map_sum id max_cols_m ex_big = Inr 4 \<and>
   map_sum id cursors ex_big = Inr (0, 0, (0, 2), (0, 1)) \<and>
   bind_error ex_big advance_result = Inr False \<and>
   map_sum id unserved (bind_error ex_big next_window) = Inr 1"
  by code_simp

text \<open>
  Claim C5, as stated: the terminating call of \<open>advance\<close> leaves \<open>col_offset()\<close>,
  \<open>col_part_offset()\<close> and the views unchanged. In the scenario with at most 4 columns
  resident, the third window has the cursors \<open>(7, 2, (7, 10), (2, 3))\<close>; no partition is
  unserved; the fourth call returns false and leaves the cursors \<open>(10, 3, (10, 10), (3, 3))\<close>.
\<close>

theorem terminating_advance_cursors_counterexample:
  "map_sum id cursors (bind_error (bind_error (ex_stream 4) next_window) next_window)
     = Inr (7, 2, (7, 10), (2, 3)) \<and>
   map_sum id unserved (bind_error (bind_error (ex_stream 4) next_window) next_window) = Inr 0 \<and>
   bind_error (bind_error (bind_error (ex_stream 4) next_window) next_window) advance_result
     = Inr False \<and>
   map_sum id cursors
     (bind_error (bind_error (bind_error (ex_stream 4) next_window) next_window) next_window)
     = Inr (10, 3, (10, 10), (3, 3))"
  by code_simp

text \<open>
  Claim C5, amended: when all active partitions have been served, \<open>advance\<close> returns
  false and moves the cursors to the end of the last window: both views become the empty
  interval at their former end, \<open>col_offset()\<close> becomes the former end column,
  \<open>col_part_offset()\<close> the former end partition; the buffers keep their contents, and
  afterwards \<open>num_col_parts() = 0\<close>.
\<close>

theorem terminating_advance_moves_cursors:
  assumes "attr_type_ok m" and "total_num_parts_m m \<le> snd (col_part_view_m m)"
  shows "advance m =
           Inr (False, m\<lparr>col_view_m := (snd (col_view_m m), snd (col_view_m m)),
                          col_part_view_m := (snd (col_part_view_m m), snd (col_part_view_m m)),
                          num_cols_m := 0, col_offset_m := snd (col_view_m m),
                          num_col_parts_m := 0, col_part_offset_m := snd (col_part_view_m m)\<rparr>)
         \<and> (\<forall>m'. advance m = Inr (False, m') \<longrightarrow>
               num_col_parts m' = 0 \<and> col_offset m' = snd (col_view_m m) \<and>
               col_part_offset m' = snd (col_part_view_m m) \<and>
               data_m m' = data_m m \<and> ids_m m' = ids_m m)"
proof -
  have fit: "fit_partitions (indices_m m) (parts_m m) (total_num_parts_m m) (max_cols_m m)
               (snd (col_view_m m)) (snd (col_view_m m), snd (col_part_view_m m))
               (snd (col_part_view_m m)) = (snd (col_view_m m), snd (col_part_view_m m))"
    using assms(2) by (simp add: fit_partitions_stop)
  show ?thesis
    using advance_cases [OF fit assms(1) refl refl refl refl]
    by (simp add: num_col_parts_def col_offset_def col_part_offset_def)
qed

theorem terminating_advance_moves_cursors_witness:
  "attr_type_ok (ex_empty\<lparr>col_part_view_m := (0, 1)\<rparr>) \<and>
   total_num_parts_m (ex_empty\<lparr>col_part_view_m := (0, 1)\<rparr>)
     \<le> snd (col_part_view_m (ex_empty\<lparr>col_part_view_m := (0, 1)\<rparr>)) \<and>
   advance_result (ex_empty\<lparr>col_part_view_m := (0, 1)\<rparr>) = Inr False"
  using terminating_advance_moves_cursors [of "ex_empty\<lparr>col_part_view_m := (0, 1)\<rparr>"]
  by (simp add: ex_empty_def advance_result_def)

text \<open>
  Claim C6, as stated: with a well-formed indices vector and a sorted active list without
  duplicates, \<open>advance\<close> never raises "Invalid partitioning". For the indices
  \<open>[0, 0, 5]\<close> and the active list \<open>[0]\<close> the call of \<open>advance\<close> in the
  constructor raises it.
\<close>

theorem empty_only_window_counterexample:
  "wf_indices [0, 0, 5] 5 \<and> wf_active [0, 0, 5] [0] \<and>
   tdbPartitionedMatrix_alloc [0 ..< 5] [100, 101, 102, 103, 104] True True True 5 [0, 0, 5] [0] 0
     = Inr ex_empty \<and>
   advance ex_empty = Inl InvalidPartitioning"
  by code_simp

text \<open>
  Claim C6, amended: with a well-formed indices vector and a sorted active list without
  duplicates, \<open>advance\<close> raises "Invalid partitioning" exactly when the window it selects
  holds at least one partition and only empty partitions, that is, when the first unserved
  partitions are empty up to the end of the active list or up to a partition larger than
  \<open>max_cols_m\<close>. In every window that is produced, the columns are those of its non-empty
  partitions, and an empty partition adds no read range.
\<close>

theorem advance_invalid_partitioning_iff:
  assumes wfi: "wf_indices (indices_m m) N" and wfa: "wf_active (indices_m m) (parts_m m)"
    and len: "total_num_parts_m m = length (parts_m m)" and attr: "attr_type_ok m"
  shows "(advance m = Inl InvalidPartitioning \<longleftrightarrow>
           (\<exists>p1. snd (col_part_view_m m) < p1 \<and> p1 \<le> total_num_parts_m m \<and>
              (\<forall>j \<in> {snd (col_part_view_m m) ..< p1}. part_size (indices_m m) (parts_m m) j = 0) \<and>
              (p1 < total_num_parts_m m \<longrightarrow>
                 max_cols_m m < part_size (indices_m m) (parts_m m) p1)))
       \<and> (\<forall>m'. advance m = Inr (True, m') \<longrightarrow>
            take (num_cols_m m') (data_m m') =
              map (\<lambda>c. Some (array_m m ! c))
                (concat (map (\<lambda>j. part_columns (indices_m m) (parts_m m ! j))
                   (filter (\<lambda>j. part_size (indices_m m) (parts_m m) j \<noteq> 0)
                      [fst (col_part_view_m m') ..< snd (col_part_view_m m')]))))
       \<and> (\<forall>js. snd (add_ranges (indices_m m) (parts_m m) js) =
             map (\<lambda>j. (indices_m m ! (parts_m m ! j), indices_m m ! (parts_m m ! j + 1) - 1))
               (filter (\<lambda>j. part_size (indices_m m) (parts_m m) j \<noteq> 0) js))"
proof (intro conjI allI impI)
  define c0 where "c0 = snd (col_view_m m)"
  define p0 where "p0 = snd (col_part_view_m m)"
  obtain c1 p1 where fit:
    "fit_partitions (indices_m m) (parts_m m) (total_num_parts_m m) (max_cols_m m)
       (snd (col_view_m m)) (snd (col_view_m m), snd (col_part_view_m m))
       (snd (col_part_view_m m)) = (c1, p1)"
    by (cases "fit_partitions (indices_m m) (parts_m m) (total_num_parts_m m) (max_cols_m m)
       (snd (col_view_m m)) (snd (col_view_m m), snd (col_part_view_m m))
       (snd (col_part_view_m m))") auto
  note spec = fit_partitions_spec [OF fit, folded c0_def p0_def]
  note adv = advance_cases [OF fit attr c0_def p0_def refl refl]
  have inv_iff: "advance m = Inl InvalidPartitioning \<longleftrightarrow> c1 = c0 \<and> p0 < p1"
    unfolding adv by simp
  show "advance m = Inl InvalidPartitioning \<longleftrightarrow>
           (\<exists>p1. snd (col_part_view_m m) < p1 \<and> p1 \<le> total_num_parts_m m \<and>
              (\<forall>j \<in> {snd (col_part_view_m m) ..< p1}. part_size (indices_m m) (parts_m m) j = 0) \<and>
              (p1 < total_num_parts_m m \<longrightarrow>
                 max_cols_m m < part_size (indices_m m) (parts_m m) p1))"
    (is "?L \<longleftrightarrow> ?R")
  proof
    assume ?L
    then have c: "c1 = c0" and lt: "p0 < p1" by (simp_all add: inv_iff)
    have "p0 \<le> total_num_parts_m m"
    proof (rule ccontr)
      assume "\<not> p0 \<le> total_num_parts_m m"
      then have "fit_partitions (indices_m m) (parts_m m) (total_num_parts_m m) (max_cols_m m)
                   c0 (c0, p0) p0 = (c0, p0)"
        by (simp add: fit_partitions_stop)
      with fit lt show False by (simp add: c0_def p0_def)
    qed
    with spec have le: "p1 \<le> total_num_parts_m m" by simp
    from spec c have "sum_list (map (part_size (indices_m m) (parts_m m)) [p0 ..< p1]) = 0"
      by simp
    then have z: "\<forall>j \<in> {p0 ..< p1}. part_size (indices_m m) (parts_m m) j = 0"
      by (simp add: sum_list_part_size_0)
    from spec c have "p1 < total_num_parts_m m \<longrightarrow>
        max_cols_m m < part_size (indices_m m) (parts_m m) p1"
      by simp
    with lt le z show ?R unfolding p0_def by blast
  next
    assume ?R
    then obtain q where q: "p0 < q" "q \<le> total_num_parts_m m"
        "\<forall>j \<in> {p0 ..< q}. part_size (indices_m m) (parts_m m) j = 0"
        "q < total_num_parts_m m \<longrightarrow> max_cols_m m < part_size (indices_m m) (parts_m m) q"
      unfolding p0_def by blast
    have "fit_partitions (indices_m m) (parts_m m) (total_num_parts_m m) (max_cols_m m)
            c0 (c0, p0) p0 =
          fit_partitions (indices_m m) (parts_m m) (total_num_parts_m m) (max_cols_m m)
            c0 (c0, q) q"
      using q by (intro fit_partitions_empties) auto
    also have "\<dots> = (c0, q)"
      using q by (intro fit_partitions_stop) auto
    finally have "c1 = c0" "p1 = q" using fit by (simp_all add: c0_def p0_def)
    with q show ?L by (simp add: inv_iff)
  qed
next
  fix m'
  assume prod: "advance m = Inr (True, m')"
  define c0 where "c0 = snd (col_view_m m)"
  define p0 where "p0 = snd (col_part_view_m m)"
  obtain c1 p1 where fit:
    "fit_partitions (indices_m m) (parts_m m) (total_num_parts_m m) (max_cols_m m)
       (snd (col_view_m m)) (snd (col_view_m m), snd (col_part_view_m m))
       (snd (col_part_view_m m)) = (c1, p1)"
    by (cases "fit_partitions (indices_m m) (parts_m m) (total_num_parts_m m) (max_cols_m m)
       (snd (col_view_m m)) (snd (col_view_m m), snd (col_part_view_m m))
       (snd (col_part_view_m m))") auto
  note spec = fit_partitions_spec [OF fit, folded c0_def p0_def]
  define cols where
    "cols = concat (map (\<lambda>j. part_columns (indices_m m) (parts_m m ! j)) [p0 ..< p1])"
  note adv = advance_cases [OF fit attr c0_def p0_def refl cols_def]
  from prod have m': "m' = m\<lparr>col_view_m := (c0, c1), col_part_view_m := (p0, p1),
                   num_cols_m := c1 - c0, col_offset_m := c0,
                   num_col_parts_m := p1 - p0, col_part_offset_m := p0,
                   data_m := fill_buffer (map (\<lambda>c. Some (array_m m ! c)) cols) (data_m m),
                   ids_m := fill_buffer (map (\<lambda>c. ids_array_m m ! c) cols) (ids_m m)\<rparr>"
    unfolding adv by (simp split: if_splits)
  have "length cols = sum_list (map (part_size (indices_m m) (parts_m m)) [p0 ..< p1])"
    by (simp add: cols_def length_concat comp_def part_columns_def part_size_def [abs_def])
  with spec have len: "length cols = c1 - c0" by simp
  have filt: "concat (map (\<lambda>j. part_columns (indices_m m) (parts_m m ! j))
                 (filter (\<lambda>j. part_size (indices_m m) (parts_m m) j \<noteq> 0) js)) =
              concat (map (\<lambda>j. part_columns (indices_m m) (parts_m m ! j)) js)" for js
    by (induction js) (auto simp: part_columns_def part_size_def)
  show "take (num_cols_m m') (data_m m') =
              map (\<lambda>c. Some (array_m m ! c))
                (concat (map (\<lambda>j. part_columns (indices_m m) (parts_m m ! j))
                   (filter (\<lambda>j. part_size (indices_m m) (parts_m m) j \<noteq> 0)
                      [fst (col_part_view_m m') ..< snd (col_part_view_m m')])))"
    unfolding filt using len by (simp add: m' fill_buffer_def cols_def)
next
  fix js
  show "snd (add_ranges (indices_m m) (parts_m m) js) =
             map (\<lambda>j. (indices_m m ! (parts_m m ! j), indices_m m ! (parts_m m ! j + 1) - 1))
               (filter (\<lambda>j. part_size (indices_m m) (parts_m m) j \<noteq> 0) js)"
    by (simp add: add_ranges_eq)
qed

theorem advance_invalid_partitioning_iff_witness:
  "wf_indices (indices_m ex_empty) 5 \<and> wf_active (indices_m ex_empty) (parts_m ex_empty) \<and>
   total_num_parts_m ex_empty = length (parts_m ex_empty) \<and> attr_type_ok ex_empty \<and>
   advance ex_empty = Inl InvalidPartitioning \<and>
   (\<exists>p1. snd (col_part_view_m ex_empty) < p1 \<and> p1 \<le> total_num_parts_m ex_empty \<and>
      (\<forall>j \<in> {snd (col_part_view_m ex_empty) ..< p1}.
          part_size (indices_m ex_empty) (parts_m ex_empty) j = 0) \<and>
      (p1 < total_num_parts_m ex_empty \<longrightarrow>
         max_cols_m ex_empty < part_size (indices_m ex_empty) (parts_m ex_empty) p1))"
proof -
  have h: "wf_indices (indices_m ex_empty) 5" "wf_active (indices_m ex_empty) (parts_m ex_empty)"
    "total_num_parts_m ex_empty = length (parts_m ex_empty)" "attr_type_ok ex_empty"
    by (simp_all add: ex_empty_def wf_indices_def wf_active_def)
  have a: "advance ex_empty = Inl InvalidPartitioning" by code_simp
  from advance_invalid_partitioning_iff [OF h] a h show ?thesis by blast
qed
section \<open>Properties of the bounded heap\<close>

lemma heap_top_foldl:
  fixes t :: "'s::linorder \<times> 'i"
  shows "foldl (\<lambda>t e. if fst t < fst e then e else t) t es \<in> set (t # es) \<and>
         (\<forall>e \<in> set (t # es). fst e \<le> fst (foldl (\<lambda>t e. if fst t < fst e then e else t) t es))"
proof (induction es arbitrary: t)
  case Nil
  then show ?case by simp
next
  case (Cons e es)
  show ?case
  proof (cases "fst t < fst e")
    case True
    with Cons [of e] show ?thesis by (auto intro: order_trans less_imp_le)
  next
    case False
    with Cons [of t] show ?thesis by (auto simp: not_less intro: order_trans)
  qed
qed

lemma heap_top_in:
  fixes es :: "('s::linorder \<times> 'i) list"
  shows "es \<noteq> [] \<Longrightarrow> heap_top (<) es \<in> set es"
  using heap_top_foldl [of "hd es" "tl es"] by (cases es) (auto simp: heap_top_def)

lemma heap_top_max:
  fixes es :: "('s::linorder \<times> 'i) list"
  shows "e \<in> set es \<Longrightarrow> fst e \<le> fst (heap_top (<) es)"
  using heap_top_foldl [of "hd es" "tl es"] by (cases es) (auto simp: heap_top_def)

lemma k_smallest_insert_room:
  assumes "k_smallest_subset k H S" "size H < k"
  shows "k_smallest_subset k (H + {#e#}) (S + {#e#})"
proof -
  from assms have "size S < k" by (auto simp: k_smallest_subset_def min_def split: if_splits)
  with assms have "size H = size S" "H \<subseteq># S" by (auto simp: k_smallest_subset_def)
  then have "H = S"
    using mset_subset_size [of H S] by (auto simp: subset_mset.less_le)
  then show ?thesis using \<open>size S < k\<close> by (simp add: k_smallest_subset_def)
qed

lemma diff_add_single1: "H \<subseteq># S \<Longrightarrow> S + {#e#} - H = (S - H) + {#e#}"
  by (metis mset_subset_eq_multiset_union_diff_commute)

lemma diff_add_single2:
  "H \<subseteq># S \<Longrightarrow> t \<in># H \<Longrightarrow> S + {#e#} - (H - {#t#} + {#e#}) = (S - H) + {#t#}"
proof -
  assume sub: "H \<subseteq># S" and tin: "t \<in># H"
  obtain H' where H: "H = add_mset t H'" using tin by (meson multi_member_split)
  have "S + {#e#} - (H - {#t#} + {#e#}) = S - H'" by (simp add: H)
  also have "\<dots> = (S - H) + {#t#}"
  proof (rule multiset_eqI)
    fix a
    from sub have "count H a \<le> count S a" by (simp add: mset_subset_eq_count)
    then show "count (S - H') a = count ((S - H) + {#t#}) a" by (auto simp: H)
  qed
  finally show ?thesis .
qed

lemma subset_add_single: "H \<subseteq># S \<Longrightarrow> H \<subseteq># S + {#e#}"
  by (meson mset_subset_eq_add_left subset_mset.add_increasing2 subset_mset.le_add_same_cancel1)

lemma subset_swap_single: "H \<subseteq># S \<Longrightarrow> H - {#t#} + {#e#} \<subseteq># S + {#e#}"
  by (meson diff_subset_eq_self mset_subset_eq_mono_add_right_cancel subset_mset.dual_order.trans)

lemma size_swap_single: "t \<in># H \<Longrightarrow> size (H - {#t#} + {#e#}) = size H"
  by (simp add: size_Suc_Diff1)

lemma k_smallest_insert_noop:
  assumes inv: "k_smallest_subset k H S" and full: "size H = k"
    and top: "\<forall>a \<in># H. fst a \<le> fst e"
  shows "k_smallest_subset k H (S + {#e#})"
proof -
  from inv have sub: "H \<subseteq># S" by (simp add: k_smallest_subset_def)
  from inv full have kS: "k \<le> size S" by (auto simp: k_smallest_subset_def)
  from inv have out: "\<forall>a \<in># H. \<forall>b \<in># S - H. fst a \<le> fst b"
    by (simp add: k_smallest_subset_def)
  have s2: "size H = min k (size (S + {#e#}))" using full kS by simp
  have s3: "\<forall>a \<in># H. \<forall>b \<in># (S - H) + {#e#}. fst a \<le> fst b"
    using out top by auto
  show ?thesis
    unfolding k_smallest_subset_def diff_add_single1 [OF sub]
    using subset_add_single [OF sub] s2 s3 by blast
qed

lemma k_smallest_insert_displace:
  assumes inv: "k_smallest_subset k H S" and full: "size H = k"
    and tin: "t \<in># H" and tmax: "\<forall>a \<in># H. fst a \<le> fst t" and lt: "fst e < fst t"
  shows "k_smallest_subset k (H - {#t#} + {#e#}) (S + {#e#})"
proof -
  from inv have sub: "H \<subseteq># S" by (simp add: k_smallest_subset_def)
  from inv full have kS: "k \<le> size S" by (auto simp: k_smallest_subset_def)
  from inv have out: "\<forall>a \<in># H. \<forall>b \<in># S - H. fst a \<le> fst b"
    by (simp add: k_smallest_subset_def)
  have s2: "size (H - {#t#} + {#e#}) = min k (size (S + {#e#}))"
    unfolding size_swap_single [OF tin] using full kS by simp
  have s3: "\<forall>a \<in># H - {#t#} + {#e#}. \<forall>b \<in># (S - H) + {#t#}. fst a \<le> fst b"
  proof (intro ballI)
    fix a b assume a: "a \<in># H - {#t#} + {#e#}" and b: "b \<in># (S - H) + {#t#}"
    from a have "a \<in># H \<or> a = e" by (auto dest: in_diffD)
    then have at: "fst a \<le> fst t" using tmax lt by auto
    from b have "b \<in># S - H \<or> b = t" by auto
    then have "fst t \<le> fst b" using out tin by auto
    with at show "fst a \<le> fst b" by simp
  qed
  show ?thesis
    unfolding k_smallest_subset_def diff_add_single2 [OF sub tin]
    using subset_swap_single [OF sub] s2 s3 by blast
qed

text \<open>One insert with the default comparator, on the multiset of the entries.\<close>

lemma heap_insert_less_cases:
  fixes h :: "('s::linorder, 'i) fixed_min_pair_heap"
  shows "max_size (heap_insert (<) h x y) = max_size h \<and>
    (if length (elems h) < max_size h
     then elems (heap_insert (<) h x y) = elems h @ [(x, y)]
     else if elems h \<noteq> [] \<and> x < fst (heap_top (<) (elems h))
     then mset (elems (heap_insert (<) h x y)) =
            mset (elems h) - {#heap_top (<) (elems h)#} + {#(x, y)#}
     else heap_insert (<) h x y = h)"
  by (simp add: heap_insert_def)

lemma heap_insert_k_smallest:
  fixes h :: "('s::linorder, 'i) fixed_min_pair_heap"
  assumes inv: "k_smallest_subset (max_size h) (mset (elems h)) S"
  shows "k_smallest_subset (max_size h) (mset (elems (heap_insert (<) h x y))) (S + {#(x, y)#})"
proof -
  let ?H = "mset (elems h)" and ?k = "max_size h" and ?t = "heap_top (<) (elems h)"
  from inv have sz: "size ?H \<le> ?k" by (simp add: k_smallest_subset_def)
  show ?thesis
  proof (cases "length (elems h) < ?k")
    case True
    with k_smallest_insert_room [OF inv, of "(x, y)"] show ?thesis
      by (simp add: heap_insert_def)
  next
    case False
    with sz have full: "size ?H = ?k" by simp
    show ?thesis
    proof (cases "elems h \<noteq> [] \<and> x < fst ?t")
      case True
      then have tin: "?t \<in># ?H" by (simp add: heap_top_in)
      have tmax: "\<forall>a \<in># ?H. fst a \<le> fst ?t" by (simp add: heap_top_max)
      have "mset (elems (heap_insert (<) h x y)) = ?H - {#?t#} + {#(x, y)#}"
        using True False by (simp add: heap_insert_def)
      with k_smallest_insert_displace [OF inv full tin tmax, of "(x, y)"] True
      show ?thesis by simp
    next
      case nd: False
      have "\<forall>a \<in># ?H. fst a \<le> fst (x, y)"
      proof
        fix a assume "a \<in># ?H"
        then have "a \<in> set (elems h)" by simp
        with nd heap_top_max [of a "elems h"] show "fst a \<le> fst (x, y)" by auto
      qed
      moreover have "heap_insert (<) h x y = h"
        using nd False by (auto simp: heap_insert_def)
      ultimately show ?thesis
        using k_smallest_insert_noop [OF inv full, of "(x, y)"] by simp
    qed
  qed
qed

lemma heap_insert_max_size: "max_size (heap_insert cmp h x y) = max_size h"
  by (simp add: heap_insert_def)

lemma heap_inserts_max_size:
  "max_size (heap_inserts cmp h xs) = max_size h"
proof (induction xs arbitrary: h)
  case Nil
  then show ?case by (simp add: heap_inserts_def)
next
  case (Cons e xs)
  from Cons [of "heap_insert cmp h (fst e) (snd e)"] show ?case
    by (simp add: heap_inserts_def heap_insert_max_size case_prod_unfold)
qed

lemma heap_inserts_k_smallest:
  fixes h :: "('s::linorder, 'i) fixed_min_pair_heap"
  assumes "k_smallest_subset (max_size h) (mset (elems h)) S"
  shows "k_smallest_subset (max_size h) (mset (elems (heap_inserts (<) h xs))) (S + mset xs)"
  using assms
proof (induction xs arbitrary: h S)
  case Nil
  then show ?case by (simp add: heap_inserts_def)
next
  case (Cons e xs)
  obtain x y where e: "e = (x, y)" by (cases e)
  have m: "max_size (heap_insert (<) h x y) = max_size h" by (simp add: heap_insert_def)
  from Cons.IH [of "heap_insert (<) h x y" "S + {#(x, y)#}"]
       heap_insert_k_smallest [OF Cons.prems, of x y]
  show ?case by (simp add: heap_inserts_def e m)
qed

lemma k_smallest_empty: "k_smallest_subset k {#} {#}"
  by (simp add: k_smallest_subset_def)

lemma heap_top_Max:
  fixes es :: "('s::linorder \<times> 'i) list"
  assumes "es \<noteq> []"
  shows "fst (heap_top (<) es) = Max (fst ` set es)"
proof (rule antisym)
  show "fst (heap_top (<) es) \<le> Max (fst ` set es)"
    using heap_top_in [OF assms] by simp
  show "Max (fst ` set es) \<le> fst (heap_top (<) es)"
    using assms by (simp add: heap_top_max)
qed

text \<open>
  The model against the unit test of the source (unit_fixed_min_heap.cc, lines 143-172): ten
  inserts in ascending and in descending order into a heap of capacity 5, then sorted
  (the scores are pairwise distinct).
\<close>

lemma unit_fixed_min_pair_heap:
  "sort_key fst (elems (heap_inserts (<) (new_heap 5)
                        (map (\<lambda>i. (10 - int i, i)) [0, 1, 2, 3, 4, 5, 6, 7, 8, 9])))
     = [(1, 9), (2, 8), (3, 7), (4, 6), (5, 5)] \<and>
   sort_key fst (elems (heap_inserts (<) (new_heap 5)
                        (map (\<lambda>i. (10 + int i, i)) [9, 8, 7, 6, 5, 4, 3, 2, 1, 0])))
     = [(10, 0), (11, 1), (12, 2), (13, 3), (14, 4)]"
  by code_simp

section \<open>Claim about the bounded heap\<close>

text \<open>
  Claim C2. For every capacity \<open>k \<ge> 1\<close> and every finite sequence \<open>xs\<close> of inserts
  into an empty heap of capacity \<open>k\<close>: the size never exceeds \<open>k\<close>; once the size is
  \<open>k\<close>, an insert whose score is not below the maximal score in the heap leaves the heap
  unchanged, and any other insert displaces a pair of maximal score; and the pairs held
  after the sequence are a \<open>k\<close>-smallest-by-score subset of the inserted pairs. (The
  statement holds for every \<open>xs\<close>, hence after every prefix of a sequence.)
\<close>

theorem fixed_min_pair_heap_k_smallest:
  fixes xs :: "('s::linorder \<times> 'i) list"
  assumes k: "1 \<le> k" and h: "h = heap_inserts (<) (new_heap k) xs"
  shows "length (elems h) \<le> k \<and>
         (length (elems h) = k \<longrightarrow>
            (\<forall>x y. Max (fst ` set (elems h)) \<le> x \<longrightarrow> heap_insert (<) h x y = h) \<and>
            (\<forall>x y. x < Max (fst ` set (elems h)) \<longrightarrow>
               (\<exists>t \<in> set (elems h). fst t = Max (fst ` set (elems h)) \<and>
                  mset (elems (heap_insert (<) h x y)) = mset (elems h) - {#t#} + {#(x, y)#}))) \<and>
         k_smallest_subset k (mset (elems h)) (mset xs)"
proof -
  have ms: "max_size h = k" by (simp add: h heap_inserts_max_size new_heap_def)
  have "k_smallest_subset (max_size (new_heap k :: ('s, 'i) fixed_min_pair_heap))
          (mset (elems (heap_inserts (<) (new_heap k) xs))) ({#} + mset xs)"
    by (rule heap_inserts_k_smallest) (simp add: new_heap_def k_smallest_empty)
  then have ks: "k_smallest_subset k (mset (elems h)) (mset xs)"
    by (simp add: h new_heap_def)
  then have len: "length (elems h) \<le> k" by (simp add: k_smallest_subset_def)
  have full: "length (elems h) = k \<longrightarrow>
            (\<forall>x y. Max (fst ` set (elems h)) \<le> x \<longrightarrow> heap_insert (<) h x y = h) \<and>
            (\<forall>x y. x < Max (fst ` set (elems h)) \<longrightarrow>
               (\<exists>t \<in> set (elems h). fst t = Max (fst ` set (elems h)) \<and>
                  mset (elems (heap_insert (<) h x y)) = mset (elems h) - {#t#} + {#(x, y)#}))"
  proof (intro impI conjI allI)
    fix x y
    assume l: "length (elems h) = k" and ge: "Max (fst ` set (elems h)) \<le> x"
    from l k have ne: "elems h \<noteq> []" by auto
    from ge have "\<not> x < fst (heap_top (<) (elems h))" by (simp add: heap_top_Max [OF ne])
    with l ms show "heap_insert (<) h x y = h" by (simp add: heap_insert_def)
  next
    fix x y
    assume l: "length (elems h) = k" and lt: "x < Max (fst ` set (elems h))"
    from l k have ne: "elems h \<noteq> []" by auto
    let ?t = "heap_top (<) (elems h)"
    from lt have "x < fst ?t" by (simp add: heap_top_Max [OF ne])
    with l ms ne have "mset (elems (heap_insert (<) h x y)) = mset (elems h) - {#?t#} + {#(x, y)#}"
      by (simp add: heap_insert_def)
    with heap_top_in [OF ne] heap_top_Max [OF ne]
    show "\<exists>t \<in> set (elems h). fst t = Max (fst ` set (elems h)) \<and>
            mset (elems (heap_insert (<) h x y)) = mset (elems h) - {#t#} + {#(x, y)#}"
      by blast
  qed
  from len full ks show ?thesis by blast
qed

theorem fixed_min_pair_heap_k_smallest_witness:
  "(1::nat) \<le> 2 \<and>
   elems (heap_inserts (<) (new_heap 2) [(3::int, 0::nat), (1, 1), (2, 2)]) = [(1, 1), (2, 2)] \<and>
   length (elems (heap_inserts (<) (new_heap 2) [(3::int, 0::nat), (1, 1), (2, 2)])) \<le> 2 \<and>
   k_smallest_subset 2 (mset [(1::int, 1::nat), (2, 2)]) (mset [(3, 0), (1, 1), (2, 2)])"
proof -
  have e: "elems (heap_inserts (<) (new_heap 2) [(3::int, 0::nat), (1, 1), (2, 2)]) = [(1, 1), (2, 2)]"
    by code_simp
  from fixed_min_pair_heap_k_smallest [of 2 "heap_inserts (<) (new_heap 2) [(3::int, 0::nat), (1, 1), (2, 2)]" "[(3, 0), (1, 1), (2, 2)]"]
  show ?thesis unfolding e by simp
qed

section \<open>Properties of the random initialisation\<close>










section \<open>Claim about the random initialisation\<close>



section \<open>Properties of k-means training\<close>

subsection \<open>The heap with any comparator\<close>

lemma heap_top_in_any: "es \<noteq> [] \<Longrightarrow> heap_top cmp es \<in> set es"
proof -
  have "foldl (\<lambda>t e. if cmp (fst t) (fst e) then e else t) t es \<in> set (t # es)" for t es
    by (induction es arbitrary: t) (auto split: if_splits)
  from this [of "hd es" "tl es"] show "es \<noteq> [] \<Longrightarrow> heap_top cmp es \<in> set es"
    by (cases es) (auto simp: heap_top_def)
qed

lemma heap_insert_length:
  "length (elems h) \<le> max_size h \<Longrightarrow>
   length (elems (heap_insert cmp h x y)) = min (max_size h) (length (elems h) + 1)"
proof -
  have "elems h \<noteq> [] \<Longrightarrow> length (remove1 (heap_top cmp (elems h)) (elems h)) + 1 = length (elems h)"
  proof -
    assume ne: "elems h \<noteq> []"
    then have "0 < length (elems h)" by simp
    with heap_top_in_any [OF ne, of cmp] show ?thesis by (simp add: length_remove1)
  qed
  then show "length (elems h) \<le> max_size h \<Longrightarrow>
   length (elems (heap_insert cmp h x y)) = min (max_size h) (length (elems h) + 1)"
    by (auto simp: heap_insert_def)
qed

lemma heap_insert_subset:
  "mset (elems (heap_insert cmp h x y)) \<subseteq># mset (elems h) + {#(x, y)#}"
  by (auto simp: heap_insert_def heap_top_in_any intro: subset_mset.add_mono diff_subset_eq_self)

lemma heap_inserts_append:
  "heap_inserts cmp h (xs @ [(x, y)]) = heap_insert cmp (heap_inserts cmp h xs) x y"
  by (simp add: heap_inserts_def)

lemma heap_inserts_length:
  "length (elems (heap_inserts cmp (new_heap k) xs)) = min k (length xs)"
proof (induction xs rule: rev_induct)
  case Nil
  then show ?case by (simp add: heap_inserts_def new_heap_def)
next
  case (snoc e xs)
  obtain x y where e: "e = (x, y)" by (cases e)
  have m: "max_size (heap_inserts cmp (new_heap k) xs) = k"
    by (simp add: heap_inserts_max_size new_heap_def)
  from snoc have "length (elems (heap_inserts cmp (new_heap k) xs)) \<le> k" by simp
  from heap_insert_length [of "heap_inserts cmp (new_heap k) xs" cmp x y] this snoc m
  show ?case by (simp add: e heap_inserts_append)
qed

lemma heap_inserts_subset:
  "mset (elems (heap_inserts cmp (new_heap k) xs)) \<subseteq># mset xs"
proof (induction xs rule: rev_induct)
  case Nil
  then show ?case by (simp add: heap_inserts_def new_heap_def)
next
  case (snoc e xs)
  obtain x y where e: "e = (x, y)" by (cases e)
  have "mset (elems (heap_inserts cmp (new_heap k) (xs @ [e]))) \<subseteq>#
        mset (elems (heap_inserts cmp (new_heap k) xs)) + {#(x, y)#}"
    by (simp only: e heap_inserts_append heap_insert_subset)
  also have "\<dots> \<subseteq># mset xs + {#(x, y)#}"
    using snoc by (simp del: add_mset_add_single)
  finally show ?case by (simp add: e)
qed


subsection \<open>The reassignment loop\<close>

lemma takeWhile_index:
  "i \<le> length (takeWhile P xs) \<Longrightarrow> (i < length xs \<and> P (xs ! i)) = (i < length (takeWhile P xs))"
proof (cases "i < length (takeWhile P xs)")
  case True
  then have "i < length xs" using length_takeWhile_le [of P xs] by simp
  moreover from True have "P (xs ! i)"
    by (metis nth_mem set_takeWhileD takeWhile_nth)
  ultimately show ?thesis using True by simp
next
  case False
  assume "i \<le> length (takeWhile P xs)"
  with False have i: "i = length (takeWhile P xs)" by simp
  show ?thesis using nth_length_takeWhile [of P xs] i by auto
qed

lemma reassign_loop_foldl:
  assumes "i \<le> length (takeWhile (\<lambda>e. fst e \<le> b) low)"
  shows "reassign_loop d ts parts low high b i st =
           foldl (\<lambda>st i. reassign_step d ts parts (snd (low ! i)) (snd (high ! i)) st) st
             [i ..< length (takeWhile (\<lambda>e. fst e \<le> b) low)]"
  using assms
proof (induction "length (takeWhile (\<lambda>e. fst e \<le> b) low) - i" arbitrary: i st)
  case 0
  then have i: "i = length (takeWhile (\<lambda>e. fst e \<le> b) low)" by simp
  with takeWhile_index [of i "\<lambda>e. fst e \<le> b" low]
  have "\<not> (i < length low \<and> fst (low ! i) \<le> b)" by simp
  then show ?case using i by (subst reassign_loop.simps) auto
next
  case (Suc n)
  then have lt: "i < length (takeWhile (\<lambda>e. fst e \<le> b) low)" by simp
  with takeWhile_index [of i "\<lambda>e. fst e \<le> b" low]
  have c: "i < length low \<and> fst (low ! i) \<le> b" by simp
  have "reassign_loop d ts parts low high b i st =
        reassign_loop d ts parts low high b (i + 1)
          (reassign_step d ts parts (snd (low ! i)) (snd (high ! i)) st)"
    using c by (subst reassign_loop.simps) simp
  also have "\<dots> = foldl (\<lambda>st i. reassign_step d ts parts (snd (low ! i)) (snd (high ! i)) st)
                      (reassign_step d ts parts (snd (low ! i)) (snd (high ! i)) st)
                      [i + 1 ..< length (takeWhile (\<lambda>e. fst e \<le> b) low)]"
    using Suc.hyps(2) lt by (intro Suc.hyps(1)) auto
  finally show ?case using lt by (simp add: upt_conv_Cons)
qed

lemma reassign_step_move:
  "reassign_step d ts parts (snd l) (snd h) (nc, dg, mv) =
     (fst (move_outlier d ts parts (nc, dg) (l, h)), snd (move_outlier d ts parts (nc, dg) (l, h)),
      mv @ [(snd l, snd h)])"
  by (cases l; cases h) (simp add: reassign_step_def move_outlier_def Let_def)

lemma foldl_reassign_steps:
  assumes "n \<le> length low" "n \<le> length high"
  shows "foldl (\<lambda>st i. reassign_step d ts parts (snd (low ! i)) (snd (high ! i)) st) (nc, dg, mv) [0 ..< n] =
     (fst (foldl (move_outlier d ts parts) (nc, dg) (zip (take n low) (take n high))),
      snd (foldl (move_outlier d ts parts) (nc, dg) (zip (take n low) (take n high))),
      mv @ map (\<lambda>(l, h). (snd l, snd h)) (zip (take n low) (take n high)))"
  using assms
proof (induction n)
  case 0
  then show ?case by simp
next
  case (Suc n)
  then have z: "zip (take (Suc n) low) (take (Suc n) high) =
                zip (take n low) (take n high) @ [(low ! n, high ! n)]"
    by (simp add: take_Suc_conv_app_nth zip_append)
  from Suc show ?case
    unfolding z by (simp add: reassign_step_move case_prod_unfold)
qed

lemma zip_take_right: "zip xs (take (length xs) ys) = zip xs ys"
proof (induction xs arbitrary: ys)
  case Nil
  then show ?case by simp
next
  case (Cons x xs)
  then show ?case by (cases ys) simp_all
qed

lemma reassign_loop_pairs:
  assumes "length (takeWhile (\<lambda>e. fst e \<le> b) low) \<le> length high"
  shows "reassign_loop d ts parts low high b 0 (nc, dg, []) =
     (fst (foldl (move_outlier d ts parts) (nc, dg) (zip (takeWhile (\<lambda>e. fst e \<le> b) low) high)),
      snd (foldl (move_outlier d ts parts) (nc, dg) (zip (takeWhile (\<lambda>e. fst e \<le> b) low) high)),
      map (\<lambda>(l, h). (snd l, snd h)) (zip (takeWhile (\<lambda>e. fst e \<le> b) low) high))"
proof -
  let ?n = "length (takeWhile (\<lambda>e. fst e \<le> b) low)"
  have t: "take ?n low = takeWhile (\<lambda>e. fst e \<le> b) low"
    by (metis append_eq_conv_conj takeWhile_dropWhile_id)
  have z: "zip (take ?n low) (take ?n high) = zip (takeWhile (\<lambda>e. fst e \<le> b) low) high"
    unfolding t by (simp add: zip_take_right)
  have "?n \<le> length low" by (rule length_takeWhile_le)
  from foldl_reassign_steps [OF this assms, of d ts parts nc dg "[]"]
  show ?thesis
    by (simp add: reassign_loop_foldl z)
qed

subsection \<open>The heaps of one iteration\<close>

lemma heap_inserts_Cons:
  "heap_inserts cmp h ((x, y) # xs) = heap_inserts cmp (heap_insert cmp h x y) xs"
  by (simp add: heap_inserts_def)

lemma heap_inserts_Nil: "heap_inserts cmp h [] = h"
  by (simp add: heap_inserts_def)

lemma accumulate_step_eq:
  "accumulate_step d ts scores parts (nc, dg, h) j =
     (nc[parts ! j := add_vector d (nc ! (parts ! j)) (ts ! j)],
      dg[parts ! j := dg ! (parts ! j) + 1],
      heap_insert (>) h (scores ! j) j)"
  by (simp add: accumulate_step_def Let_def)

lemma accumulate_heap:
  "snd (snd (foldl (accumulate_step d ts scores parts) (nc, dg, h) js)) =
     heap_inserts (>) h (map (\<lambda>i. (scores ! i, i)) js)"
proof (induction js arbitrary: nc dg h)
  case Nil
  then show ?case by (simp add: heap_inserts_Nil)
next
  case (Cons j js)
  show ?case
    by (simp add: accumulate_step_eq Cons heap_inserts_Cons del: One_nat_def)
qed

lemma degree_scan_heap:
  "snd (foldl (\<lambda>(max_degree, low_degrees) i.
              (max max_degree (degrees ! i), heap_insert (<) low_degrees (degrees ! i) i))
         (m, h) js) =
     heap_inserts (<) h (map (\<lambda>i. (degrees ! i, i)) js)"
proof (induction js arbitrary: m h)
  case Nil
  then show ?case by (simp add: heap_inserts_Nil)
next
  case (Cons j js)
  show ?case by (simp add: Cons heap_inserts_Cons)
qed

lemma accumulate_high_scores:
  "accumulate d nlist k ts scores parts = (nc, dg, hs) \<Longrightarrow>
   hs = heap_inserts (>) (new_heap k) (map (\<lambda>i. (scores ! i, i)) [0 ..< length ts])"
  using accumulate_heap [of d ts scores parts "replicate nlist (replicate d 0)" "replicate nlist 0"
      "new_heap k" "[0 ..< length ts]"]
  by (simp add: accumulate_def)

lemma degree_scan_low_degrees:
  "degree_scan nlist k degrees = (m, low) \<Longrightarrow>
   low = heap_inserts (<) (new_heap k) (map (\<lambda>i. (degrees ! i, i)) [0 ..< nlist])"
  using degree_scan_heap [of degrees 0 "new_heap k" "[0 ..< nlist]"]
  by (simp add: degree_scan_def)

subsection \<open>Sums and degrees of one iteration\<close>

lemma members_Suc:
  "{i. i < Suc n \<and> parts ! i = j} =
     (if parts ! n = j then insert n {i. i < n \<and> parts ! i = j} else {i. i < n \<and> parts ! i = j})"
  by (auto simp: less_Suc_eq)

lemma accumulated_step:
  assumes inv: "accumulated d nlist ts parts n nc dg" and p: "parts ! n < nlist"
  shows "accumulated d nlist ts parts (Suc n)
           (nc[parts ! n := add_vector d (nc ! (parts ! n)) (ts ! n)])
           (dg[parts ! n := dg ! (parts ! n) + 1])"
  unfolding accumulated_def
proof (intro conjI allI impI)
  from inv show "length (nc[parts ! n := add_vector d (nc ! (parts ! n)) (ts ! n)]) = nlist"
    by (simp add: accumulated_def)
  from inv show "length (dg[parts ! n := dg ! (parts ! n) + 1]) = nlist"
    by (simp add: accumulated_def)
next
  fix j assume j: "j < nlist"
  from inv have ln: "length nc = nlist" "length dg = nlist" by (simp_all add: accumulated_def)
  from inv j have ij: "length (nc ! j) = d" "dg ! j = card {i. i < n \<and> parts ! i = j}"
    "\<forall>k < d. nc ! j ! k = (\<Sum>i \<in> {i. i < n \<and> parts ! i = j}. ts ! i ! k)"
    by (simp_all add: accumulated_def)
  have fin: "finite {i. i < n \<and> parts ! i = j}" by simp
  have nin: "n \<notin> {i. i < n \<and> parts ! i = j}" by simp
  show "length (nc[parts ! n := add_vector d (nc ! (parts ! n)) (ts ! n)] ! j) = d"
    using ij(1) ln j by (cases "parts ! n = j") (simp_all add: add_vector_def)
  show "dg[parts ! n := dg ! (parts ! n) + 1] ! j = card {i. i < Suc n \<and> parts ! i = j}"
    using ij(2) ln j fin nin by (cases "parts ! n = j") (simp_all add: members_Suc)
  fix k assume k: "k < d"
  show "nc[parts ! n := add_vector d (nc ! (parts ! n)) (ts ! n)] ! j ! k =
          (\<Sum>i \<in> {i. i < Suc n \<and> parts ! i = j}. ts ! i ! k)"
    using ij(3) ln j k fin nin
    by (cases "parts ! n = j") (simp_all add: members_Suc add_vector_def add.commute)
qed

lemma accumulated_init:
  "accumulated d nlist ts parts 0 (replicate nlist (replicate d 0)) (replicate nlist 0)"
  by (simp add: accumulated_def)

lemma accumulated_foldl:
  assumes "n \<le> length ts" and "\<forall>i < length ts. parts ! i < nlist"
  shows "\<exists>nc dg h. foldl (accumulate_step d ts scores parts)
            (replicate nlist (replicate d 0), replicate nlist 0, h0) [0 ..< n] = (nc, dg, h) \<and>
          accumulated d nlist ts parts n nc dg"
  using assms(1)
proof (induction n)
  case 0
  then show ?case by (simp add: accumulated_init)
next
  case (Suc n)
  then obtain nc dg h where f: "foldl (accumulate_step d ts scores parts)
            (replicate nlist (replicate d 0), replicate nlist 0, h0) [0 ..< n] = (nc, dg, h)"
    and a: "accumulated d nlist ts parts n nc dg" by auto
  from Suc.prems assms(2) have "parts ! n < nlist" by simp
  from accumulated_step [OF a this] f show ?case
    by (simp add: accumulate_step_eq del: One_nat_def)
qed

lemma accumulate_accumulated:
  assumes "\<forall>i < length ts. parts ! i < nlist"
    and "accumulate d nlist k ts scores parts = (nc, dg, hs)"
  shows "accumulated d nlist ts parts (length ts) nc dg"
  using accumulated_foldl [OF order_refl assms(1), of d scores "new_heap k"] assms(2)
  by (auto simp: accumulate_def)









subsection \<open>The convergence check and the loop\<close>












lemma nearest_centroid_less:
  assumes "0 < length c"
  shows "snd (nearest_centroid c v) < length c"
proof -
  have "arg < length c \<Longrightarrow> set js \<subseteq> {..<length c} \<Longrightarrow>
        snd (foldl (\<lambda>(best, arg) j.
              let s = sum_of_squares v (c ! j) in if s < best then (s, j) else (best, arg))
           (best, arg) js) < length c" for best arg js
    by (induction js arbitrary: best arg) (auto simp: Let_def)
  moreover have "set [1 ..< length c] \<subseteq> {..<length c}" by auto
  ultimately have "snd (foldl (\<lambda>(best, arg) j.
              let s = sum_of_squares v (c ! j) in if s < best then (s, j) else (best, arg))
           (sum_of_squares v (c ! 0), 0) [1 ..< length c]) < length c"
    using assms by blast
  then show ?thesis unfolding nearest_centroid_def .
qed

lemma sorts_ascending_sort_key: "sorts_ascending (sort_key fst)"
  by (simp add: sorts_ascending_def)

lemma sorts_descending_sort_key:
  "sorts_descending (sort_key (\<lambda>e. - fst e) :: (rat \<times> nat) list \<Rightarrow> (rat \<times> nat) list)"
proof -
  have "sorted (rev (map fst (sort_key (\<lambda>e. - fst e) xs)))" for xs :: "(rat \<times> nat) list"
  proof -
    have "sorted (map (\<lambda>e. - fst e) (sort_key (\<lambda>e. - fst e) xs))" by simp
    then have "sorted_wrt (\<lambda>x y. fst y \<le> fst x) (sort_key (\<lambda>e. - fst e) xs)"
      by (simp add: sorted_map)
    then show ?thesis by (simp add: sorted_wrt_rev sorted_wrt_map)
  qed
  then show ?thesis by (simp add: sorts_descending_def)
qed

lemma wf_training_ex_lib:
  assumes "nlist_m p \<le> length ts" "0 < nlist_m p" "list_all (\<lambda>v. length v = dimension_m p) ts"
  shows "wf_training p ex_lib ts"
proof -
  have "snd (nearest_centroid centroids v) < nlist_m p" if "length centroids = nlist_m p"
    for centroids v
    using nearest_centroid_less [of centroids v] that assms(2) by simp
  with assms show ?thesis
    by (simp add: wf_training_def ex_lib_def qv_partition_with_scores_def list_all_iff
        sorts_ascending_sort_key sorts_descending_sort_key)
qed


section \<open>The reassignment of k-means training against the spec\<close>

subsection \<open>The heap with the comparator greater\<close>

lemma heap_top_greater_fold:
  fixes t :: "rat \<times> 'i"
  shows "map_prod uminus id (foldl (\<lambda>t e. if fst t > fst e then e else t) t es) =
         foldl (\<lambda>t e. if fst t < fst e then e else t) (map_prod uminus id t)
           (map (map_prod uminus id) es)"
  by (induction es arbitrary: t) simp_all

lemma heap_top_greater:
  fixes es :: "(rat \<times> 'i) list"
  assumes "es \<noteq> []"
  shows "heap_top (<) (map (map_prod uminus id) es) = map_prod uminus id (heap_top (>) es)"
  using assms heap_top_greater_fold [of "hd es" "tl es"]
  by (cases es) (simp_all add: heap_top_def)

lemma remove1_map_inj:
  assumes "inj f"
  shows "remove1 (f x) (map f xs) = map f (remove1 x xs)"
  using assms by (induction xs) (auto dest: injD)

lemma inj_negate_score: "inj (map_prod uminus id :: rat \<times> 'i \<Rightarrow> rat \<times> 'i)"
  by (rule injI) (auto simp: map_prod_def split: prod.splits)

lemma heap_insert_greater:
  fixes h :: "(rat, 'i) fixed_min_pair_heap"
  shows "heap_insert (<) (h\<lparr>elems := map (map_prod uminus id) (elems h)\<rparr>) (- x) y =
         (heap_insert (>) h x y)
           \<lparr>elems := map (map_prod uminus id) (elems (heap_insert (>) h x y))\<rparr>"
proof (cases "elems h = []")
  case True
  then show ?thesis by (simp add: heap_insert_def)
next
  case False
  have top: "fst (heap_top (<) (map (map_prod uminus id) (elems h))) = - fst (heap_top (>) (elems h))"
    by (simp add: heap_top_greater [OF False])
  show ?thesis
    using False
    by (simp add: heap_insert_def top heap_top_greater [OF False]
        remove1_map_inj [OF inj_negate_score])
qed

lemma heap_inserts_greater:
  fixes h :: "(rat, 'i) fixed_min_pair_heap"
  shows "heap_inserts (<) (h\<lparr>elems := map (map_prod uminus id) (elems h)\<rparr>)
           (map (map_prod uminus id) xs) =
         (heap_inserts (>) h xs)
           \<lparr>elems := map (map_prod uminus id) (elems (heap_inserts (>) h xs))\<rparr>"
proof (induction xs arbitrary: h)
  case Nil
  then show ?case by (simp add: heap_inserts_Nil)
next
  case (Cons e xs)
  obtain x y where e: "e = (x, y)" by (cases e)
  have 1: "map (map_prod uminus id) ((x, y) # xs) = (- x, y) # map (map_prod uminus id) xs"
    by simp
  show ?case
    unfolding e 1 heap_inserts_Cons heap_insert_greater by (rule Cons.IH)
qed

lemma k_smallest_negated:
  fixes H S :: "(rat \<times> 'i) multiset"
  assumes ks: "k_smallest_subset k (image_mset (map_prod uminus id) H)
                 (image_mset (map_prod uminus id) S)"
    and sub: "H \<subseteq># S"
  shows "k_largest_subset k H S"
proof -
  have d: "image_mset (map_prod uminus id) S - image_mset (map_prod uminus id) H =
           image_mset (map_prod uminus id) (S - H)"
    using sub by (simp add: image_mset_Diff)
  have "fst b \<le> fst a" if "a \<in># H" "b \<in># S - H" for a b
  proof -
    from that have "map_prod uminus id a \<in># image_mset (map_prod uminus id) H"
      "map_prod uminus id b \<in># image_mset (map_prod uminus id) S - image_mset (map_prod uminus id) H"
      unfolding d by simp_all
    with ks have "fst (map_prod uminus id a) \<le> fst (map_prod uminus id b)"
      unfolding k_smallest_subset_def by blast
    then show ?thesis by simp
  qed
  moreover from ks have "size H = min k (size S)" by (simp add: k_smallest_subset_def)
  ultimately show ?thesis using sub by (simp add: k_largest_subset_def)
qed

lemma heap_inserts_k_largest:
  fixes xs :: "(rat \<times> 'i) list"
  shows "k_largest_subset k (mset (elems (heap_inserts (>) (new_heap k) xs))) (mset xs)"
proof -
  let ?N = "map_prod uminus id :: rat \<times> 'i \<Rightarrow> rat \<times> 'i"
  have n: "(new_heap k :: (rat, 'i) fixed_min_pair_heap)\<lparr>elems := map ?N (elems (new_heap k :: (rat, 'i) fixed_min_pair_heap))\<rparr> = new_heap k"
    by (simp add: new_heap_def)
  have "k_smallest_subset (max_size (new_heap k :: (rat, 'i) fixed_min_pair_heap))
          (mset (elems (heap_inserts (<) (new_heap k) (map ?N xs)))) ({#} + mset (map ?N xs))"
    by (rule heap_inserts_k_smallest) (simp add: new_heap_def k_smallest_empty)
  then have "k_smallest_subset k (mset (elems (heap_inserts (<) (new_heap k) (map ?N xs))))
               (image_mset ?N (mset xs))"
    by (simp add: new_heap_def)
  moreover have "elems (heap_inserts (<) (new_heap k) (map ?N xs)) =
                 map ?N (elems (heap_inserts (>) (new_heap k) xs))"
    using heap_inserts_greater [of "new_heap k" xs] unfolding n by simp
  ultimately have "k_smallest_subset k (image_mset ?N (mset (elems (heap_inserts (>) (new_heap k) xs))))
               (image_mset ?N (mset xs))"
    by simp
  then show ?thesis by (rule k_smallest_negated) (rule heap_inserts_subset)
qed

subsection \<open>The sums, the degrees and the largest degree in the words of the spec\<close>

lemma foldr_max_shift: "foldr max xs (max m (a::'a::linorder)) = max a (foldr max xs m)"
  by (induction xs) (simp_all add: max.left_commute max.commute)

lemma degree_scan_max_fold:
  fixes degrees :: "nat list"
  shows "fst (foldl (\<lambda>(max_degree, low_degrees) i.
              (max max_degree (degrees ! i), heap_insert (<) low_degrees (degrees ! i) i))
         (m, h) js) =
     foldr max (map (\<lambda>i. degrees ! i) js) m"
proof (induction js arbitrary: m h)
  case Nil
  then show ?case by simp
next
  case (Cons j js)
  have "fst (foldl (\<lambda>(max_degree, low_degrees) i.
              (max max_degree (degrees ! i), heap_insert (<) low_degrees (degrees ! i) i))
         (m, h) (j # js)) =
        foldr max (map (\<lambda>i. degrees ! i) js) (max m (degrees ! j))"
    by (simp add: Cons)
  also have "\<dots> = max (degrees ! j) (foldr max (map (\<lambda>i. degrees ! i) js) m)"
    by (rule foldr_max_shift)
  finally show ?case by simp
qed

lemma degree_scan_max_degree:
  assumes "degree_scan nlist k degrees = (m, low)" "length degrees = nlist"
  shows "m = foldr max degrees 0"
proof -
  have "m = foldr max (map (\<lambda>i. degrees ! i) [0 ..< nlist]) 0"
    using degree_scan_max_fold [of degrees 0 "new_heap k" "[0 ..< nlist]"] assms(1)
    by (simp add: degree_scan_def)
  then show ?thesis unfolding assms(2) [symmetric] by (simp only: map_nth)
qed

lemma partition_members_set:
  "set (partition_members ts parts j) = {i. i < length ts \<and> parts ! i = j}"
  by (auto simp: partition_members_def)

lemma partition_members_distinct: "distinct (partition_members ts parts j)"
  by (simp add: partition_members_def)

lemma partition_degree_card:
  "partition_degree ts parts j = card {i. i < length ts \<and> parts ! i = j}"
  unfolding partition_degree_def partition_members_set [symmetric]
  by (rule distinct_card [symmetric]) (rule partition_members_distinct)

lemma partition_sum_nth:
  assumes "k < d"
  shows "partition_sum d ts parts j ! k = (\<Sum>i \<in> {i. i < length ts \<and> parts ! i = j}. ts ! i ! k)"
proof -
  have "partition_sum d ts parts j ! k = (\<Sum>i \<leftarrow> partition_members ts parts j. ts ! i ! k)"
    using assms by (simp add: partition_sum_def)
  also have "\<dots> = (\<Sum>i \<in> set (partition_members ts parts j). ts ! i ! k)"
    by (rule sum_list_distinct_conv_sum_set) (rule partition_members_distinct)
  finally show ?thesis by (simp only: partition_members_set)
qed

lemma accumulated_spec:
  assumes "accumulated d nlist ts parts (length ts) nc dg"
  shows "nc = map (partition_sum d ts parts) [0 ..< nlist] \<and>
         dg = map (partition_degree ts parts) [0 ..< nlist]"
proof
  from assms have ln: "length nc = nlist" "length dg = nlist"
    and ea: "\<And>j. j < nlist \<Longrightarrow> length (nc ! j) = d"
    and dj: "\<And>j. j < nlist \<Longrightarrow> dg ! j = card {i. i < length ts \<and> parts ! i = j}"
    and sj: "\<And>j k. j < nlist \<Longrightarrow> k < d \<Longrightarrow>
               nc ! j ! k = (\<Sum>i \<in> {i. i < length ts \<and> parts ! i = j}. ts ! i ! k)"
    by (simp_all add: accumulated_def)
  show "dg = map (partition_degree ts parts) [0 ..< nlist]"
    by (rule nth_equalityI) (simp_all add: ln dj partition_degree_card)
  show "nc = map (partition_sum d ts parts) [0 ..< nlist]"
  proof (rule nth_equalityI)
    show "length nc = length (map (partition_sum d ts parts) [0 ..< nlist])" by (simp add: ln)
    fix j assume "j < length nc"
    then have j: "j < nlist" by (simp add: ln)
    have "nc ! j = partition_sum d ts parts j"
    proof (rule nth_equalityI)
      show "length (nc ! j) = length (partition_sum d ts parts j)"
        by (simp add: ea [OF j] partition_sum_def)
      fix k assume "k < length (nc ! j)"
      then have k: "k < d" by (simp add: ea [OF j])
      show "nc ! j ! k = partition_sum d ts parts j ! k"
        by (simp only: sj [OF j k] partition_sum_nth [OF k])
    qed
    with j show "nc ! j = map (partition_sum d ts parts) [0 ..< nlist] ! j" by simp
  qed
qed
section \<open>Claim about the reassignment step\<close>

text \<open>
  Claim C7, as stated: the reassignment is performed on every Lloyd iteration except the
  final one. On the five training vectors 22, 23, 27, 36, 18 and the centroids 24 and 18,
  with at most 5 iterations, the first iteration moves vector 3 (the value 36, of score
  144) into centroid 1 (of degree 1), which gives the sums 72 and 36, the degrees 3 and 2
  and again the centroids 24 and 18: the convergence test is met and the run ends after
  this one iteration, which is therefore its final one and has performed the reassignment.
\<close>

theorem final_iteration_reassigns_counterexample:
  "max_iter_m ex_params = 5 \<and>
   partition_with_scores ex_lib [[24], [18]] ex_outlier_set = ([4, 1, 9, 144, 0], [0, 0, 0, 0, 1]) \<and>
   train_no_init ex_params ex_lib ex_outlier_set [[24], [18]] = ([[24], [18]], 1, [[(1, 3)]]) \<and>
   accumulate_and_reassign ex_params ex_lib ex_outlier_set 0 [[24], [18]]
     = ([[72], [36]], [3, 2], [(1, 3)])"
  by code_simp

text \<open>
  Claim C7, amended: the reassignment is performed on every Lloyd iteration whose number
  is not \<open>max_iter - 1\<close> (so also on an iteration that ends the run by convergence
  before), and on no other. When performed it starts from the per-centroid sums and
  membership counts of the partition, takes a list \<open>low\<close> of the
  \<open>\<lceil>reassign_ratio * nlist\<rceil> + 5\<close> lowest (degree, centroid) pairs in ascending order
  of degree and a list \<open>high\<close> of as many highest (score, vector) pairs in descending
  order of score and, for the first pairs of \<open>low\<close> whose degree is at most
  \<open>lower_degree_bound = \<lceil>max_degree * reassign_ratio\<rceil>\<close>, \<open>max_degree\<close> being the
  largest degree, overwrites the i-th of these centroids with the i-th vector of \<open>high\<close>,
  subtracts that vector from the sum of the centroid it was assigned to, increments the
  degree of the overwritten centroid and decrements the degree of the other. (Among equal
  degrees and among equal scores the order of the two lists is not determined.) The
  training set has at least \<open>nlist\<close> vectors.
\<close>

theorem accumulate_and_reassign_unless_max_iter:
  assumes wf: "wf_training p lib ts" and lc: "length centroids = nlist_m p"
    and sp: "partition_with_scores lib centroids ts = (scores, parts)"
  shows "\<exists>low high.
           lowest_degrees (nat \<lceil>reassign_ratio_m p * of_nat (nlist_m p)\<rceil> + 5) low
             (map (\<lambda>j. (partition_degree ts parts j, j)) [0 ..< nlist_m p]) \<and>
           highest_scores (nat \<lceil>reassign_ratio_m p * of_nat (nlist_m p)\<rceil> + 5) high
             (map (\<lambda>i. (scores ! i, i)) [0 ..< length ts]) \<and>
           accumulate_and_reassign p lib ts iter centroids =
             reassignment_spec p ts parts (iter \<noteq> max_iter_m p - 1) low high"
proof -
  define k where "k = nat \<lceil>reassign_ratio_m p * of_nat (nlist_m p)\<rceil> + 5"
  obtain nc dg hs where acc:
    "accumulate (dimension_m p) (nlist_m p) k ts scores parts = (nc, dg, hs)"
    by (cases "accumulate (dimension_m p) (nlist_m p) k ts scores parts")
  obtain m lh where ds: "degree_scan (nlist_m p) k dg = (m, lh)"
    by (cases "degree_scan (nlist_m p) k dg")
  define low where "low = sort_low_degrees lib (elems lh)"
  define high where "high = sort_high_scores lib (elems hs)"
  from wf have nl: "nlist_m p \<le> length ts" by (simp add: wf_training_def)
  from wf have sl: "\<And>xs. mset (sort_low_degrees lib xs) = mset xs"
    and sl': "\<And>xs. sorted (map fst (sort_low_degrees lib xs))"
    and sh: "\<And>xs. mset (sort_high_scores lib xs) = mset xs"
    and sh': "\<And>xs. sorted (rev (map fst (sort_high_scores lib xs)))"
    by (simp_all add: wf_training_def sorts_ascending_def sorts_descending_def)
  from wf lc have "length (snd (partition_with_scores lib centroids ts)) = length ts"
    "list_all (\<lambda>c. c < nlist_m p) (snd (partition_with_scores lib centroids ts))"
    by (simp_all add: wf_training_def)
  with sp have ps: "\<forall>i < length ts. parts ! i < nlist_m p"
    by (simp add: list_all_length)
  from accumulated_spec [OF accumulate_accumulated [OF ps acc]]
  have nc: "nc = map (partition_sum (dimension_m p) ts parts) [0 ..< nlist_m p]"
    and dg: "dg = map (partition_degree ts parts) [0 ..< nlist_m p]"
    by simp_all
  have ldg: "length dg = nlist_m p" by (simp add: dg)
  have m: "m = foldr max dg 0" by (rule degree_scan_max_degree [OF ds ldg])
  have pairs: "map (\<lambda>i. (dg ! i, i)) [0 ..< nlist_m p] =
               map (\<lambda>j. (partition_degree ts parts j, j)) [0 ..< nlist_m p]"
    by (simp add: dg)
  have lh: "lh = heap_inserts (<) (new_heap k)
                   (map (\<lambda>j. (partition_degree ts parts j, j)) [0 ..< nlist_m p])"
    using degree_scan_low_degrees [OF ds] by (simp only: pairs)
  have hs: "hs = heap_inserts (>) (new_heap k) (map (\<lambda>i. (scores ! i, i)) [0 ..< length ts])"
    by (rule accumulate_high_scores [OF acc])
  have ms: "max_size (new_heap k :: (nat, nat) fixed_min_pair_heap) = k"
    by (simp add: new_heap_def)
  have "k_smallest_subset (max_size (new_heap k :: (nat, nat) fixed_min_pair_heap))
          (mset (elems (heap_inserts (<) (new_heap k)
             (map (\<lambda>j. (partition_degree ts parts j, j)) [0 ..< nlist_m p]))))
          ({#} + mset (map (\<lambda>j. (partition_degree ts parts j, j)) [0 ..< nlist_m p]))"
    by (rule heap_inserts_k_smallest) (simp add: new_heap_def k_smallest_empty)
  then have "k_smallest_subset k (mset (elems lh))
               (mset (map (\<lambda>j. (partition_degree ts parts j, j)) [0 ..< nlist_m p]))"
    unfolding ms lh [symmetric] by (simp del: mset_map)
  then have 1: "lowest_degrees k low
                  (map (\<lambda>j. (partition_degree ts parts j, j)) [0 ..< nlist_m p])"
    unfolding lowest_degrees_def low_def
    by (simp add: sl sl' del: mset_map)
  have 2: "highest_scores k high (map (\<lambda>i. (scores ! i, i)) [0 ..< length ts])"
    unfolding highest_scores_def high_def
    using heap_inserts_k_largest [of k "map (\<lambda>i. (scores ! i, i)) [0 ..< length ts]"]
    by (simp add: sh sh' hs [symmetric] del: mset_map)
  define b where "b = nat \<lceil>of_nat (foldr max dg 0) * reassign_ratio_m p\<rceil>"
  have "length low = length (elems lh)" unfolding low_def by (rule mset_eq_length) (rule sl)
  then have "length low = min k (nlist_m p)"
    by (simp add: lh heap_inserts_length)
  moreover have "length high = length (elems hs)"
    unfolding high_def by (rule mset_eq_length) (rule sh)
  then have "length high = min k (length ts)"
    by (simp add: hs heap_inserts_length)
  ultimately have "length low \<le> length high" using nl by simp
  then have "length (takeWhile (\<lambda>e. fst e \<le> b) low) \<le> length high"
    using length_takeWhile_le [of "\<lambda>e. fst e \<le> b" low] by simp
  note rl = reassign_loop_pairs [OF this, of "dimension_m p" ts parts nc dg]
  have 3: "accumulate_and_reassign p lib ts iter centroids =
             reassignment_spec p ts parts (iter \<noteq> max_iter_m p - 1) low high"
    unfolding accumulate_and_reassign_def reassignment_spec_def
    by (simp add: sp Let_def k_def [symmetric] acc ds m b_def [symmetric] rl
        low_def [symmetric] high_def [symmetric] nc [symmetric] dg [symmetric]
        split: prod.splits)
  from 1 2 3 show ?thesis unfolding k_def by blast
qed

text \<open>
  On the five training vectors: the lists are \<open>[(1, 1), (4, 0)]\<close> and
  \<open>[(144, 3), (9, 2), (4, 0), (1, 1), (0, 4)]\<close>, the bound is \<open>\<lceil>4 * 0.075\<rceil> = 1\<close>, and
  iteration 0 moves vector 3 into centroid 1; skipped, the reassignment would leave the
  sums 108 and 18.
\<close>

theorem accumulate_and_reassign_unless_max_iter_witness:
  "wf_training ex_params ex_lib ex_outlier_set \<and>
   length [[24], [18 :: rat]] = nlist_m ex_params \<and>
   partition_with_scores ex_lib [[24], [18]] ex_outlier_set = ([4, 1, 9, 144, 0], [0, 0, 0, 0, 1]) \<and>
   (\<exists>low high.
      lowest_degrees 6 low [(4, 0), (1, 1)] \<and>
      highest_scores 6 high [(4, 0), (1, 1), (9, 2), (144, 3), (0, 4)] \<and>
      accumulate_and_reassign ex_params ex_lib ex_outlier_set 0 [[24], [18]] =
        reassignment_spec ex_params ex_outlier_set [0, 0, 0, 0, 1] True low high) \<and>
   reassignment_spec ex_params ex_outlier_set [0, 0, 0, 0, 1] True
     [(1, 1), (4, 0)] [(144, 3), (9, 2), (4, 0), (1, 1), (0, 4)] = ([[72], [36]], [3, 2], [(1, 3)]) \<and>
   reassignment_spec ex_params ex_outlier_set [0, 0, 0, 0, 1] False
     [(1, 1), (4, 0)] [(144, 3), (9, 2), (4, 0), (1, 1), (0, 4)] = ([[108], [18]], [4, 1], [])"
proof -
  have wf: "wf_training ex_params ex_lib ex_outlier_set"
    by (rule wf_training_ex_lib) (simp_all add: ex_params_def ex_outlier_set_def)
  have lc: "length [[24], [18 :: rat]] = nlist_m ex_params" by (simp add: ex_params_def)
  have sp: "partition_with_scores ex_lib [[24], [18]] ex_outlier_set
              = ([4, 1, 9, 144, 0], [0, 0, 0, 0, 1])"
    by code_simp
  have k: "nat \<lceil>reassign_ratio_m ex_params * of_nat (nlist_m ex_params)\<rceil> + 5 = 6"
    by code_simp
  have i: "(0 \<noteq> max_iter_m ex_params - 1) = True" by (simp add: ex_params_def)
  have d: "map (\<lambda>j. (partition_degree ex_outlier_set [0, 0, 0, 0, 1] j, j)) [0 ..< nlist_m ex_params]
             = [(4, 0), (1, 1)]"
    by code_simp
  have s: "map (\<lambda>i. ([4, 1, 9, 144, 0 :: rat] ! i, i)) [0 ..< length ex_outlier_set]
             = [(4, 0), (1, 1), (9, 2), (144, 3), (0, 4)]"
    by code_simp
  have e1: "reassignment_spec ex_params ex_outlier_set [0, 0, 0, 0, 1] True
     [(1, 1), (4, 0)] [(144, 3), (9, 2), (4, 0), (1, 1), (0, 4)] = ([[72], [36]], [3, 2], [(1, 3)])"
    by code_simp
  have e2: "reassignment_spec ex_params ex_outlier_set [0, 0, 0, 0, 1] False
     [(1, 1), (4, 0)] [(144, 3), (9, 2), (4, 0), (1, 1), (0, 4)] = ([[108], [18]], [4, 1], [])"
    by code_simp
  from accumulate_and_reassign_unless_max_iter [OF wf lc sp, of 0]
  show ?thesis unfolding k i d s using wf lc sp e1 e2 by simp
qed

end
